theory Spec2Isabelle
  imports
    Main
    "HOL-Library.Multiset"
    "HOL-Library.Word"
    "HOL-Library.Signed_Division"
begin

section \<open>Data model\<close>

text \<open>
  Instants (Go's \<^verbatim>\<open>time.Time\<close>) and durations (\<^verbatim>\<open>time.Duration\<close>) are counted in
  nanoseconds. Only their order and sums are used.
\<close>

type_synonym time = int
type_synonym duration = int

datatype error = Error string

text \<open>
  Modelled from the spec: the declaration of \<^verbatim>\<open>rateLimitStatus\<close> is not among the
  sources. The spec gives an observation a ceiling, a remaining-calls count and a reset
  instant in Unix seconds. \<^verbatim>\<open>Run\<close> converts the counts with \<^verbatim>\<open>int(...)\<close> and subtracts
  \<^verbatim>\<open>time.Now().Unix()\<close> (an int64) from the reset, so the counts are taken as unsigned
  32-bit values and the reset as a signed 64-bit value.
\<close>

record rateLimitStatus =
  Limit :: "32 word"
  Remaining :: "32 word"
  Reset :: "64 word"

section \<open>The batch producer of followersTimeline\<close>

text \<open>
  The first goroutine of \<^verbatim>\<open>followersTimeline\<close>:
  \<^verbatim>\<open>for m := 0; ; m += 100 { n := m + 100; if n > len(ids) { n = len(ids) };
        if n-m < 1 { break }; in <- ids[m:n] }\<close>
  The model returns the batches in the order they are sent on the channel \<^verbatim>\<open>in\<close>.
\<close>

function producer :: "nat \<Rightarrow> int list \<Rightarrow> int list list" where
  "producer m ids =
     (let n = m + 100;
          n = (if n > length ids then length ids else n)
      in if int n - int m < 1 then []
         else take (n - m) (drop m ids) # producer (m + 100) ids)"
  by pat_completeness auto
termination
  by (relation "measure (\<lambda>(m, ids). length ids - m)") (auto split: if_splits)

declare producer.simps [simp del]

section \<open>Merging rate-limit observations\<close>

text \<open>
  The update of the accumulator in the collecting loop of \<^verbatim>\<open>followersTimeline\<close>:
  \<^verbatim>\<open>if apiResult.rateLimit != nil {
       if (apiResult.rateLimit.Reset > rateLimit.Reset) ||
          (apiResult.rateLimit.Remaining < rateLimit.Remaining) {
           rateLimit = apiResult.rateLimit } }\<close>
  The first argument is the accumulator, the second the observation of the incoming
  result (\<open>None\<close> for a nil pointer).
\<close>

definition mergeRateLimit :: "rateLimitStatus \<Rightarrow> rateLimitStatus option \<Rightarrow> rateLimitStatus" where
  "mergeRateLimit rateLimit incoming =
     (case incoming of
        None \<Rightarrow> rateLimit
      | Some rl \<Rightarrow>
          if sint (Reset rl) > sint (Reset rateLimit) \<or> Remaining rl < Remaining rateLimit
          then rl else rateLimit)"


section \<open>Statuses, accounts and lookup results\<close>

text \<open>
  Modelled from the spec: the declarations of \<^verbatim>\<open>Tweet\<close> and \<^verbatim>\<open>User\<close> are not among the
  sources. A Status has an identifier, a raw creation timestamp string, a text and the
  owning Account; an Account has an identifier, a handle and an optional most recent
  Status (\<open>None\<close> for a nil pointer). These are the fields that \<^verbatim>\<open>Run\<close>,
  \<^verbatim>\<open>followersTimeline\<close> and the test read and write.
\<close>

datatype tweet = Tweet (IDStr: string) (CreatedAt: string) (Text: string) (TweetUser: user)
  and user = User (ID: int) (ScreenName: string) (Status: "tweet option")

text \<open>
  Modelled from the spec: the method \<^verbatim>\<open>Tweet.CreatedAtTime\<close> is not among the sources.
  It parses the raw creation timestamp of a Status and can fail; as in Go it returns a
  time together with an error (\<open>None\<close> for nil). The parser of the timestamp string is
  a parameter of the model.
\<close>

type_synonym parser = "string \<Rightarrow> time \<times> error option"

definition CreatedAtTime :: "parser \<Rightarrow> tweet \<Rightarrow> time \<times> error option" where
  "CreatedAtTime parse t = parse (CreatedAt t)"

text \<open>The assignment \<^verbatim>\<open>tweet.User = user\<close>.\<close>

definition setUser :: "tweet \<Rightarrow> user \<Rightarrow> tweet" where
  "setUser t u = Tweet (IDStr t) (CreatedAt t) (Text t) u"

text \<open>
  Modelled from the spec: \<^verbatim>\<open>apiResult\<close> and \<^verbatim>\<open>usersLookup\<close> are not among the sources.
  A bulk lookup yields an error, or a payload of Accounts with the rate-limit
  observation of that response (a pointer, which may be nil). A \<open>result\<close> is what a
  worker sends on the channel \<^verbatim>\<open>out\<close>: \<open>Inl\<close> when \<^verbatim>\<open>err\<close> is set, \<open>Inr\<close> otherwise.
\<close>

record apiResult =
  rateLimit :: "rateLimitStatus option"
  results :: "user list"

type_synonym result = "error + apiResult"

section \<open>The collecting loop of followersTimeline\<close>

text \<open>
  The inner loop \<^verbatim>\<open>for _, user := range apiResult.results.([]User)\<close>: a Status is parsed
  before it is compared with \<open>since\<close>, and a parse error ends the whole call.
\<close>

fun appendStatuses :: "parser \<Rightarrow> time \<Rightarrow> user list \<Rightarrow> tweet list \<Rightarrow> error + tweet list" where
  "appendStatuses parse since [] timeline = Inr timeline"
| "appendStatuses parse since (u # users) timeline =
     (case Status u of
        None \<Rightarrow> appendStatuses parse since users timeline
      | Some tweet \<Rightarrow>
          (case CreatedAtTime parse tweet of
             (createdAtTime, Some e) \<Rightarrow> Inl e
           | (createdAtTime, None) \<Rightarrow>
               if createdAtTime > since
               then appendStatuses parse since users (timeline @ [setUser tweet u])
               else appendStatuses parse since users timeline))"

text \<open>
  The loop labelled \<^verbatim>\<open>Loop\<close>, over the results in the order in which they are received
  from \<^verbatim>\<open>out\<close>. The end of the list is the closed channel. The value is the triple
  that the function returns before the deferred sort; the empty list stands for the nil
  Timeline (the Timeline is nil until the first \<^verbatim>\<open>append\<close>).
\<close>

fun collect ::
  "parser \<Rightarrow> time \<Rightarrow> result list \<Rightarrow> rateLimitStatus \<Rightarrow> tweet list \<Rightarrow>
   tweet list \<times> rateLimitStatus option \<times> error option" where
  "collect parse since [] rl timeline = (timeline, Some rl, None)"
| "collect parse since (r # rs) rl timeline =
     (case r of
        Inl e \<Rightarrow> ([], None, Some e)
      | Inr a \<Rightarrow>
          (let rl' = mergeRateLimit rl (rateLimit a)
           in case appendStatuses parse since (results a) timeline of
                Inl e \<Rightarrow> ([], None, Some e)
              | Inr timeline' \<Rightarrow> collect parse since rs rl' timeline'))"

text \<open>The accumulator starts as \<^verbatim>\<open>&rateLimitStatus{}\<close>.\<close>

definition zeroRateLimit :: rateLimitStatus where
  "zeroRateLimit = \<lparr>Limit = 0, Remaining = 0, Reset = 0\<rparr>"

section \<open>The deferred sort\<close>

text \<open>
  \<^verbatim>\<open>timeline.Less\<close> ignores the parse error and compares the two times with
  \<^verbatim>\<open>Before\<close>.
\<close>

definition Less :: "parser \<Rightarrow> tweet \<Rightarrow> tweet \<Rightarrow> bool" where
  "Less parse a b = (fst (CreatedAtTime parse a) < fst (CreatedAtTime parse b))"

text \<open>
  \<^verbatim>\<open>sort.Sort\<close> belongs to Go's standard library. Its documented contract: it sorts
  the data in ascending order as determined by \<^verbatim>\<open>Less\<close>, rearranging it with
  \<^verbatim>\<open>Swap\<close>, and the sort is not guaranteed to be stable (\<^verbatim>\<open>sort.Stable\<close> is the stable
  one). \<open>sort_Sort lt xs ys\<close> holds when \<open>ys\<close> is a result that the contract allows
  for the input \<open>xs\<close> and the comparison \<open>lt\<close>: a rearrangement of \<open>xs\<close> in which no
  element is less than an earlier one. The model of \<^verbatim>\<open>followersTimeline\<close> takes the sort
  by this contract, which every version of the library meets; what the present
  implementation returns is the subject of the next section.
\<close>

definition sort_Sort :: "('a \<Rightarrow> 'a \<Rightarrow> bool) \<Rightarrow> 'a list \<Rightarrow> 'a list \<Rightarrow> bool" where
  "sort_Sort lt xs ys = (mset ys = mset xs \<and> sorted_wrt (\<lambda>a b. \<not> lt b a) ys)"

section \<open>The implementation of sort.Sort\<close>

text \<open>
  Since Go 1.19 \<^verbatim>\<open>sort.Sort\<close> is a pattern-defeating quicksort (\<^verbatim>\<open>pdqsort\<close> in
  \<^verbatim>\<open>sort/zsortinterface.go\<close>): a slice of at most 12 elements is insertion-sorted, a
  longer one is partitioned around a chosen pivot. The functions of this section follow
  that source on a list, to show what the library does with Statuses of equal creation
  time. Indices are Go's \<^verbatim>\<open>int\<close>. The procedures \<^verbatim>\<open>heapSort\<close> and \<^verbatim>\<open>breakPatterns\<close>,
  which \<^verbatim>\<open>pdqsort\<close> calls only after an unbalanced partition, are parameters.

  \<^verbatim>\<open>data.Less(i, j)\<close> and \<^verbatim>\<open>data.Swap(i, j)\<close>, for a comparison \<open>lt\<close> of elements:
\<close>

definition dataLess :: "('a \<Rightarrow> 'a \<Rightarrow> bool) \<Rightarrow> 'a list \<Rightarrow> int \<Rightarrow> int \<Rightarrow> bool" where
  "dataLess lt data i j = lt (data ! nat i) (data ! nat j)"

definition dataSwap :: "'a list \<Rightarrow> int \<Rightarrow> int \<Rightarrow> 'a list" where
  "dataSwap data i j = data[nat i := data ! nat j, nat j := data ! nat i]"

text \<open>
  \<^verbatim>\<open>func insertionSort(data Interface, a, b int) {
      for i := a + 1; i < b; i++ {
          for j := i; j > a && data.Less(j, j-1); j-- { data.Swap(j, j-1) } } }\<close>
\<close>

function insertionSort_inner :: "('a \<Rightarrow> 'a \<Rightarrow> bool) \<Rightarrow> 'a list \<Rightarrow> int \<Rightarrow> int \<Rightarrow> 'a list" where
  "insertionSort_inner lt data a j =
     (if j > a \<and> dataLess lt data j (j - 1)
      then insertionSort_inner lt (dataSwap data j (j - 1)) a (j - 1)
      else data)"
  by pat_completeness auto
termination
  by (relation "measure (\<lambda>(lt, data, a, j). nat (j - a))") auto

declare insertionSort_inner.simps [simp del]

function insertionSort_outer ::
  "('a \<Rightarrow> 'a \<Rightarrow> bool) \<Rightarrow> 'a list \<Rightarrow> int \<Rightarrow> int \<Rightarrow> int \<Rightarrow> 'a list" where
  "insertionSort_outer lt data a b i =
     (if i < b then insertionSort_outer lt (insertionSort_inner lt data a i) a b (i + 1)
      else data)"
  by pat_completeness auto
termination
  by (relation "measure (\<lambda>(lt, data, a, b, i). nat (b - i))") auto

declare insertionSort_outer.simps [simp del]

definition insertionSort :: "('a \<Rightarrow> 'a \<Rightarrow> bool) \<Rightarrow> 'a list \<Rightarrow> int \<Rightarrow> int \<Rightarrow> 'a list" where
  "insertionSort lt data a b = insertionSort_outer lt data a b (a + 1)"

text \<open>
  \<^verbatim>\<open>func order2(data Interface, a, b int, swaps *int) (int, int) {
      if data.Less(b, a) { *swaps++; return b, a }
      return a, b }
  func median(data Interface, a, b, c int, swaps *int) int {
      a, b = order2(data, a, b, swaps)
      b, c = order2(data, b, c, swaps)
      a, b = order2(data, a, b, swaps)
      return b }
  func medianAdjacent(data Interface, a int, swaps *int) int {
      return median(data, a-1, a, a+1, swaps) }\<close>
  The counter \<^verbatim>\<open>swaps\<close> is passed and returned.
\<close>

datatype sortedHint = unknownHint | increasingHint | decreasingHint

definition order2 ::
  "('a \<Rightarrow> 'a \<Rightarrow> bool) \<Rightarrow> 'a list \<Rightarrow> int \<Rightarrow> int \<Rightarrow> int \<Rightarrow> int \<times> int \<times> int" where
  "order2 lt data a b swaps =
     (if dataLess lt data b a then (b, a, swaps + 1) else (a, b, swaps))"

definition median ::
  "('a \<Rightarrow> 'a \<Rightarrow> bool) \<Rightarrow> 'a list \<Rightarrow> int \<Rightarrow> int \<Rightarrow> int \<Rightarrow> int \<Rightarrow> int \<times> int" where
  "median lt data a b c swaps =
     (case order2 lt data a b swaps of (a, b, swaps) \<Rightarrow>
      case order2 lt data b c swaps of (b, c, swaps) \<Rightarrow>
      case order2 lt data a b swaps of (a, b, swaps) \<Rightarrow> (b, swaps))"

definition medianAdjacent ::
  "('a \<Rightarrow> 'a \<Rightarrow> bool) \<Rightarrow> 'a list \<Rightarrow> int \<Rightarrow> int \<Rightarrow> int \<times> int" where
  "medianAdjacent lt data a swaps = median lt data (a - 1) a (a + 1) swaps"

text \<open>
  \<^verbatim>\<open>func choosePivot(data Interface, a, b int) (pivot int, hint sortedHint) {
      const ( shortestNinther = 50; maxSwaps = 4 * 3 )
      l := b - a
      var ( swaps int; i = a + l/4*1; j = a + l/4*2; k = a + l/4*3 )
      if l >= 8 {
          if l >= shortestNinther {
              i = medianAdjacent(data, i, &swaps)
              j = medianAdjacent(data, j, &swaps)
              k = medianAdjacent(data, k, &swaps) }
          j = median(data, i, j, k, &swaps) }
      switch swaps {
      case 0: return j, increasingHint
      case maxSwaps: return j, decreasingHint
      default: return j, unknownHint } }\<close>
\<close>

definition choosePivot ::
  "('a \<Rightarrow> 'a \<Rightarrow> bool) \<Rightarrow> 'a list \<Rightarrow> int \<Rightarrow> int \<Rightarrow> int \<times> sortedHint" where
  "choosePivot lt data a b =
     (let shortestNinther = 50;
          maxSwaps = 4 * 3;
          l = b - a;
          swaps = 0;
          i = a + l div 4 * 1;
          j = a + l div 4 * 2;
          k = a + l div 4 * 3;
          (j, swaps) =
            (if l \<ge> 8 then
               (case (if l \<ge> shortestNinther then
                        (case medianAdjacent lt data i swaps of (i, swaps) \<Rightarrow>
                         case medianAdjacent lt data j swaps of (j, swaps) \<Rightarrow>
                         case medianAdjacent lt data k swaps of (k, swaps) \<Rightarrow> (i, j, k, swaps))
                      else (i, j, k, swaps)) of
                  (i, j, k, swaps) \<Rightarrow> median lt data i j k swaps)
             else (j, swaps))
      in if swaps = 0 then (j, increasingHint)
         else if swaps = maxSwaps then (j, decreasingHint)
         else (j, unknownHint))"

text \<open>
  \<^verbatim>\<open>func reverseRange(data Interface, a, b int) {
      i := a; j := b - 1
      for i < j { data.Swap(i, j); i++; j-- } }\<close>
\<close>

function reverseRange_loop :: "'a list \<Rightarrow> int \<Rightarrow> int \<Rightarrow> 'a list" where
  "reverseRange_loop data i j =
     (if i < j then reverseRange_loop (dataSwap data i j) (i + 1) (j - 1) else data)"
  by pat_completeness auto
termination
  by (relation "measure (\<lambda>(data, i, j). nat (j - i))") auto

declare reverseRange_loop.simps [simp del]

definition reverseRange :: "'a list \<Rightarrow> int \<Rightarrow> int \<Rightarrow> 'a list" where
  "reverseRange data a b = reverseRange_loop data a (b - 1)"

text \<open>
  \<^verbatim>\<open>func partialInsertionSort(data Interface, a, b int) bool {
      const ( maxSteps = 5; shortestShifting = 50 )
      i := a + 1
      for j := 0; j < maxSteps; j++ {
          for i < b && !data.Less(i, i-1) { i++ }
          if i == b { return true }
          if b-a < shortestShifting { return false }
          data.Swap(i, i-1)
          if i-a >= 2 {
              for j := i - 1; j >= 1; j-- {
                  if !data.Less(j, j-1) { break }
                  data.Swap(j, j-1) } }
          if b-i >= 2 {
              for j := i + 1; j < b; j++ {
                  if !data.Less(j, j-1) { break }
                  data.Swap(j, j-1) } } }
      return false }\<close>
  \<open>skipOrdered\<close>, \<open>shiftLeft\<close> and \<open>shiftRight\<close> are the three inner loops; the outer loop
  counts its remaining steps down from \<^verbatim>\<open>maxSteps\<close>.
\<close>

function skipOrdered :: "('a \<Rightarrow> 'a \<Rightarrow> bool) \<Rightarrow> 'a list \<Rightarrow> int \<Rightarrow> int \<Rightarrow> int" where
  "skipOrdered lt data i b =
     (if i < b \<and> \<not> dataLess lt data i (i - 1) then skipOrdered lt data (i + 1) b else i)"
  by pat_completeness auto
termination
  by (relation "measure (\<lambda>(lt, data, i, b). nat (b - i))") auto

declare skipOrdered.simps [simp del]

function shiftLeft :: "('a \<Rightarrow> 'a \<Rightarrow> bool) \<Rightarrow> 'a list \<Rightarrow> int \<Rightarrow> 'a list" where
  "shiftLeft lt data j =
     (if j \<ge> 1 then
        (if \<not> dataLess lt data j (j - 1) then data
         else shiftLeft lt (dataSwap data j (j - 1)) (j - 1))
      else data)"
  by pat_completeness auto
termination
  by (relation "measure (\<lambda>(lt, data, j). nat j)") auto

declare shiftLeft.simps [simp del]

function shiftRight :: "('a \<Rightarrow> 'a \<Rightarrow> bool) \<Rightarrow> 'a list \<Rightarrow> int \<Rightarrow> int \<Rightarrow> 'a list" where
  "shiftRight lt data j b =
     (if j < b then
        (if \<not> dataLess lt data j (j - 1) then data
         else shiftRight lt (dataSwap data j (j - 1)) (j + 1) b)
      else data)"
  by pat_completeness auto
termination
  by (relation "measure (\<lambda>(lt, data, j, b). nat (b - j))") auto

declare shiftRight.simps [simp del]

primrec partialInsertionSort_steps ::
  "nat \<Rightarrow> ('a \<Rightarrow> 'a \<Rightarrow> bool) \<Rightarrow> 'a list \<Rightarrow> int \<Rightarrow> int \<Rightarrow> int \<Rightarrow> 'a list \<times> bool" where
  "partialInsertionSort_steps 0 lt data a b i = (data, False)"
| "partialInsertionSort_steps (Suc steps) lt data a b i =
     (let shortestShifting = 50;
          i = skipOrdered lt data i b
      in if i = b then (data, True)
         else if b - a < shortestShifting then (data, False)
         else
           (let data = dataSwap data i (i - 1);
                data = (if i - a \<ge> 2 then shiftLeft lt data (i - 1) else data);
                data = (if b - i \<ge> 2 then shiftRight lt data (i + 1) b else data)
            in partialInsertionSort_steps steps lt data a b i))"

definition partialInsertionSort ::
  "('a \<Rightarrow> 'a \<Rightarrow> bool) \<Rightarrow> 'a list \<Rightarrow> int \<Rightarrow> int \<Rightarrow> 'a list \<times> bool" where
  "partialInsertionSort lt data a b = partialInsertionSort_steps 5 lt data a b (a + 1)"


text \<open>
  \<^verbatim>\<open>func partition(data Interface, a, b, pivot int) (newpivot int, alreadyPartitioned bool) {
      data.Swap(a, pivot)
      i, j := a+1, b-1
      for i <= j && data.Less(i, a) { i++ }
      for i <= j && !data.Less(j, a) { j-- }
      if i > j { data.Swap(j, a); return j, true }
      data.Swap(i, j); i++; j--
      for {
          for i <= j && data.Less(i, a) { i++ }
          for i <= j && !data.Less(j, a) { j-- }
          if i > j { break }
          data.Swap(i, j); i++; j-- }
      data.Swap(j, a)
      return j, false }\<close>
  \<open>scanLess\<close> and \<open>scanNotLess\<close> are the two scanning loops, \<open>partition_loop\<close> the
  loop without a condition.
\<close>

function scanLess :: "('a \<Rightarrow> 'a \<Rightarrow> bool) \<Rightarrow> 'a list \<Rightarrow> int \<Rightarrow> int \<Rightarrow> int \<Rightarrow> int" where
  "scanLess lt data a i j =
     (if i \<le> j \<and> dataLess lt data i a then scanLess lt data a (i + 1) j else i)"
  by pat_completeness auto
termination
  by (relation "measure (\<lambda>(lt, data, a, i, j). nat (j + 1 - i))") auto

function scanNotLess :: "('a \<Rightarrow> 'a \<Rightarrow> bool) \<Rightarrow> 'a list \<Rightarrow> int \<Rightarrow> int \<Rightarrow> int \<Rightarrow> int" where
  "scanNotLess lt data a i j =
     (if i \<le> j \<and> \<not> dataLess lt data j a then scanNotLess lt data a i (j - 1) else j)"
  by pat_completeness auto
termination
  by (relation "measure (\<lambda>(lt, data, a, i, j). nat (j + 1 - i))") auto

declare scanLess.simps [simp del] scanNotLess.simps [simp del]

function partition_loop ::
  "('a \<Rightarrow> 'a \<Rightarrow> bool) \<Rightarrow> 'a list \<Rightarrow> int \<Rightarrow> int \<Rightarrow> int \<Rightarrow> 'a list \<times> int" where
  "partition_loop lt data a i j =
     (let i = scanLess lt data a i j;
          j = scanNotLess lt data a i j
      in if i > j then (data, j)
         else partition_loop lt (dataSwap data i j) a (i + 1) (j - 1))"
  by pat_completeness auto
termination
proof (relation "measure (\<lambda>(lt, data, a, i, j). nat (j + 1 - i))", goal_cases)
  case 1
  show ?case by simp
next
  case (2 lt data a i j i' j')
  have "i \<le> scanLess lt data a i j"
    by (induction lt data a i j rule: scanLess.induct) (subst scanLess.simps, auto)
  moreover have "scanNotLess lt data a i' j \<le> j"
    by (induction lt data a i' j rule: scanNotLess.induct) (subst scanNotLess.simps, auto)
  ultimately show ?case using 2 by simp
qed

declare partition_loop.simps [simp del]

definition partition ::
  "('a \<Rightarrow> 'a \<Rightarrow> bool) \<Rightarrow> 'a list \<Rightarrow> int \<Rightarrow> int \<Rightarrow> int \<Rightarrow> 'a list \<times> int \<times> bool" where
  "partition lt data a b pivot =
     (let data = dataSwap data a pivot;
          i = a + 1;
          j = b - 1;
          i = scanLess lt data a i j;
          j = scanNotLess lt data a i j
      in if i > j then (dataSwap data j a, j, True)
         else
           (case partition_loop lt (dataSwap data i j) a (i + 1) (j - 1) of
              (data, j) \<Rightarrow> (dataSwap data j a, j, False)))"

text \<open>
  \<^verbatim>\<open>func partitionEqual(data Interface, a, b, pivot int) (newpivot int) {
      data.Swap(a, pivot)
      i, j := a+1, b-1
      for {
          for i <= j && !data.Less(a, i) { i++ }
          for i <= j && data.Less(a, j) { j-- }
          if i > j { break }
          data.Swap(i, j); i++; j-- }
      return i }\<close>
\<close>

function scanNotGreater :: "('a \<Rightarrow> 'a \<Rightarrow> bool) \<Rightarrow> 'a list \<Rightarrow> int \<Rightarrow> int \<Rightarrow> int \<Rightarrow> int" where
  "scanNotGreater lt data a i j =
     (if i \<le> j \<and> \<not> dataLess lt data a i then scanNotGreater lt data a (i + 1) j else i)"
  by pat_completeness auto
termination
  by (relation "measure (\<lambda>(lt, data, a, i, j). nat (j + 1 - i))") auto

function scanGreater :: "('a \<Rightarrow> 'a \<Rightarrow> bool) \<Rightarrow> 'a list \<Rightarrow> int \<Rightarrow> int \<Rightarrow> int \<Rightarrow> int" where
  "scanGreater lt data a i j =
     (if i \<le> j \<and> dataLess lt data a j then scanGreater lt data a i (j - 1) else j)"
  by pat_completeness auto
termination
  by (relation "measure (\<lambda>(lt, data, a, i, j). nat (j + 1 - i))") auto

declare scanNotGreater.simps [simp del] scanGreater.simps [simp del]

function partitionEqual_loop ::
  "('a \<Rightarrow> 'a \<Rightarrow> bool) \<Rightarrow> 'a list \<Rightarrow> int \<Rightarrow> int \<Rightarrow> int \<Rightarrow> 'a list \<times> int" where
  "partitionEqual_loop lt data a i j =
     (let i = scanNotGreater lt data a i j;
          j = scanGreater lt data a i j
      in if i > j then (data, i)
         else partitionEqual_loop lt (dataSwap data i j) a (i + 1) (j - 1))"
  by pat_completeness auto
termination
proof (relation "measure (\<lambda>(lt, data, a, i, j). nat (j + 1 - i))", goal_cases)
  case 1
  show ?case by simp
next
  case (2 lt data a i j i' j')
  have "i \<le> scanNotGreater lt data a i j"
    by (induction lt data a i j rule: scanNotGreater.induct) (subst scanNotGreater.simps, auto)
  moreover have "scanGreater lt data a i' j \<le> j"
    by (induction lt data a i' j rule: scanGreater.induct) (subst scanGreater.simps, auto)
  ultimately show ?case using 2 by simp
qed

declare partitionEqual_loop.simps [simp del]

definition partitionEqual ::
  "('a \<Rightarrow> 'a \<Rightarrow> bool) \<Rightarrow> 'a list \<Rightarrow> int \<Rightarrow> int \<Rightarrow> int \<Rightarrow> 'a list \<times> int" where
  "partitionEqual lt data a b pivot =
     partitionEqual_loop lt (dataSwap data a pivot) a (a + 1) (b - 1)"


text \<open>\<^verbatim>\<open>bits.Len(uint(n))\<close>: the number of bits of \<open>n\<close>.\<close>

function bits_Len :: "nat \<Rightarrow> nat" where
  "bits_Len n = (if n = 0 then 0 else Suc (bits_Len (n div 2)))"
  by pat_completeness auto
termination
  by (relation "measure (\<lambda>n. n)") auto

declare bits_Len.simps [simp del]

text \<open>
  \<^verbatim>\<open>func pdqsort(data Interface, a, b, limit int) {
      const maxInsertion = 12
      var ( wasBalanced = true; wasPartitioned = true )
      for {
          length := b - a
          if length <= maxInsertion { insertionSort(data, a, b); return }
          if limit == 0 { heapSort(data, a, b); return }
          if !wasBalanced { breakPatterns(data, a, b); limit-- }
          pivot, hint := choosePivot(data, a, b)
          if hint == decreasingHint {
              reverseRange(data, a, b)
              pivot = (b - 1) - (pivot - a)
              hint = increasingHint }
          if wasBalanced && wasPartitioned && hint == increasingHint {
              if partialInsertionSort(data, a, b) { return } }
          if a > 0 && !data.Less(a-1, pivot) {
              mid := partitionEqual(data, a, b, pivot)
              a = mid
              continue }
          mid, alreadyPartitioned := partition(data, a, b, pivot)
          wasPartitioned = alreadyPartitioned
          leftLen, rightLen := mid-a, b-mid
          balanceThreshold := length / 8
          if leftLen < rightLen {
              wasBalanced = leftLen >= balanceThreshold
              pdqsort(data, a, mid, limit)
              a = mid + 1
          } else {
              wasBalanced = rightLen >= balanceThreshold
              pdqsort(data, mid+1, b, limit)
              b = mid } } }\<close>
  One equation of the model is one pass through the loop; the two flags are arguments,
  \<open>True\<close> where the function is entered. Each pass and each call uses one unit of
  \<open>fuel\<close>, and the value is \<open>None\<close> when the fuel runs out.
\<close>

primrec pdqsort ::
  "nat \<Rightarrow> ('a list \<Rightarrow> int \<Rightarrow> int \<Rightarrow> 'a list) \<Rightarrow> ('a list \<Rightarrow> int \<Rightarrow> int \<Rightarrow> 'a list) \<Rightarrow>
   ('a \<Rightarrow> 'a \<Rightarrow> bool) \<Rightarrow> 'a list \<Rightarrow> int \<Rightarrow> int \<Rightarrow> int \<Rightarrow> bool \<Rightarrow> bool \<Rightarrow> 'a list option" where
  "pdqsort 0 heapSort breakPatterns lt data a b limit wasBalanced wasPartitioned = None"
| "pdqsort (Suc fuel) heapSort breakPatterns lt data a b limit wasBalanced wasPartitioned =
     (let maxInsertion = 12;
          length = b - a
      in if length \<le> maxInsertion then Some (insertionSort lt data a b)
         else if limit = 0 then Some (heapSort data a b)
         else
           (case (if \<not> wasBalanced then (breakPatterns data a b, limit - 1) else (data, limit)) of
              (data, limit) \<Rightarrow>
           (case choosePivot lt data a b of (pivot, hint) \<Rightarrow>
           (case (if hint = decreasingHint
                  then (reverseRange data a b, (b - 1) - (pivot - a), increasingHint)
                  else (data, pivot, hint)) of
              (data, pivot, hint) \<Rightarrow>
           (case (if wasBalanced \<and> wasPartitioned \<and> hint = increasingHint
                  then partialInsertionSort lt data a b else (data, False)) of
              (data, True) \<Rightarrow> Some data
            | (data, False) \<Rightarrow>
                if a > 0 \<and> \<not> dataLess lt data (a - 1) pivot then
                  (case partitionEqual lt data a b pivot of
                     (data, mid) \<Rightarrow>
                       pdqsort fuel heapSort breakPatterns lt data mid b limit
                         wasBalanced wasPartitioned)
                else
                  (case partition lt data a b pivot of
                     (data, mid, alreadyPartitioned) \<Rightarrow>
                       (let leftLen = mid - a;
                            rightLen = b - mid;
                            balanceThreshold = length div 8
                        in if leftLen < rightLen then
                             (case pdqsort fuel heapSort breakPatterns lt data a mid limit
                                     True True of
                                None \<Rightarrow> None
                              | Some data \<Rightarrow>
                                  pdqsort fuel heapSort breakPatterns lt data (mid + 1) b limit
                                    (leftLen \<ge> balanceThreshold) alreadyPartitioned)
                           else
                             (case pdqsort fuel heapSort breakPatterns lt data (mid + 1) b limit
                                     True True of
                                None \<Rightarrow> None
                              | Some data \<Rightarrow>
                                  pdqsort fuel heapSort breakPatterns lt data a mid limit
                                    (rightLen \<ge> balanceThreshold) alreadyPartitioned))))))))"

text \<open>
  \<^verbatim>\<open>func Sort(data Interface) {
      n := data.Len()
      if n <= 1 { return }
      limit := bits.Len(uint(n))
      pdqsort(data, 0, n, limit) }\<close>
\<close>

definition Sort ::
  "nat \<Rightarrow> ('a list \<Rightarrow> int \<Rightarrow> int \<Rightarrow> 'a list) \<Rightarrow> ('a list \<Rightarrow> int \<Rightarrow> int \<Rightarrow> 'a list) \<Rightarrow>
   ('a \<Rightarrow> 'a \<Rightarrow> bool) \<Rightarrow> 'a list \<Rightarrow> 'a list option" where
  "Sort fuel heapSort breakPatterns lt data =
     (let n = length data
      in if n \<le> 1 then Some data
         else pdqsort fuel heapSort breakPatterns lt data 0 (int n) (int (bits_Len n)) True True)"

section \<open>followersTimeline\<close>

text \<open>
  \<open>followersTimeline parse idsResults lookups since ret\<close> holds when the call with
  threshold \<open>since\<close> can return the triple \<open>ret\<close> (Timeline, rate-limit observation,
  error), where
  \<^item> \<open>idsResults\<close> is what \<^verbatim>\<open>followersIDs\<close> returned (an error or the identifiers);
  \<^item> \<open>lookups\<close> lists the bulk lookups of the workers, each batch with its result, in
    the order in which the results are offered on \<^verbatim>\<open>out\<close>. Each batch of the producer
    is taken by one worker, so the batches of \<open>lookups\<close> are those of the producer in
    some order. The collecting loop reads them until it returns.
  The deferred function sorts the Timeline when it is not nil.
\<close>

definition followersTimeline ::
  "parser \<Rightarrow> error + int list \<Rightarrow> (int list \<times> result) list \<Rightarrow> time \<Rightarrow>
   tweet list \<times> rateLimitStatus option \<times> error option \<Rightarrow> bool" where
  "followersTimeline parse idsResults lookups since ret =
     (case idsResults of
        Inl e \<Rightarrow> lookups = [] \<and> ret = ([], None, Some e)
      | Inr ids \<Rightarrow>
          mset (map fst lookups) = mset (producer 0 ids) \<and>
          (case collect parse since (map snd lookups) zeroRateLimit [] of
             (timeline, rl, err) \<Rightarrow>
               snd ret = (rl, err) \<and>
               (if timeline \<noteq> [] then sort_Sort (Less parse) timeline (fst ret)
                else fst ret = [])))"

section \<open>Notions for stating the properties of followersTimeline\<close>

text \<open>
  The error, if any, that the collecting loop meets in a list of Accounts: the parse
  error of the first Status that does not parse.
\<close>

fun parseFailure :: "parser \<Rightarrow> user list \<Rightarrow> error option" where
  "parseFailure parse [] = None"
| "parseFailure parse (u # users) =
     (case Status u of
        None \<Rightarrow> parseFailure parse users
      | Some tweet \<Rightarrow>
          (case snd (CreatedAtTime parse tweet) of
             Some e \<Rightarrow> Some e
           | None \<Rightarrow> parseFailure parse users))"

text \<open>
  The error, if any, that a result brings to the collecting loop: the error of the
  worker, or else the first parse error among its Statuses.
\<close>

definition failure :: "parser \<Rightarrow> result \<Rightarrow> error option" where
  "failure parse r = (case r of Inl e \<Rightarrow> Some e | Inr a \<Rightarrow> parseFailure parse (results a))"

text \<open>The rate-limit observation that a result carries, if any.\<close>

definition observation :: "result \<Rightarrow> rateLimitStatus option" where
  "observation r = (case r of Inl e \<Rightarrow> None | Inr a \<Rightarrow> rateLimit a)"

text \<open>The Accounts resolved by a list of results, in the order of the list.\<close>

definition resolved :: "result list \<Rightarrow> user list" where
  "resolved rs = concat (map (\<lambda>r. case r of Inl e \<Rightarrow> [] | Inr a \<Rightarrow> results a) rs)"

text \<open>
  The Statuses of a list of Accounts whose parsed creation time is strictly after
  \<open>since\<close>, each with its Account attached, in the order of the list.
\<close>

definition recent :: "parser \<Rightarrow> time \<Rightarrow> user list \<Rightarrow> tweet list" where
  "recent parse since users =
     concat (map (\<lambda>u. case Status u of
                          None \<Rightarrow> []
                        | Some tweet \<Rightarrow>
                            if fst (CreatedAtTime parse tweet) > since then [setUser tweet u]
                            else []) users)"

section \<open>The scheduler: one iteration of the loop of Run\<close>

text \<open>The state that \<^verbatim>\<open>Run\<close> keeps from one iteration to the next.\<close>

record botState =
  latestRateLimit :: rateLimitStatus
  latestCreatedAt :: time

text \<open>
  Go's \<^verbatim>\<open>/\<close> on int64 truncates towards zero. (A zero divisor panics; the divisor below
  is never zero.)
\<close>

definition int64_quo :: "64 word \<Rightarrow> 64 word \<Rightarrow> 64 word" where
  "int64_quo a b = word_of_int (sint a sdiv sint b)"

text \<open>
  The block "calculate waiting time" of \<^verbatim>\<open>Run\<close>; \<open>nowUnix\<close> is the value of
  \<^verbatim>\<open>time.Now().Unix()\<close>. \<^verbatim>\<open>int\<close> is taken as 64 bits wide, so \<^verbatim>\<open>int(...)\<close> of a count and
  the arithmetic on \<^verbatim>\<open>diff\<close> and \<^verbatim>\<open>num\<close> are exact; the subtraction of the two int64
  values wraps around.
  \<^verbatim>\<open>var maxWait int64 = 10
  if diff := int(latestRateLimit.Remaining) - int(rateLimit.Remaining); diff > 0 {
      num := int(rateLimit.Remaining) / diff
      if num == 0 { num++ }
      wait := (rateLimit.Reset - time.Now().Unix()) / int64(num)
      if wait > maxWait { maxWait = wait } }\<close>
\<close>

definition waitSeconds :: "rateLimitStatus \<Rightarrow> rateLimitStatus \<Rightarrow> 64 word \<Rightarrow> 64 word" where
  "waitSeconds latest rl nowUnix =
     (let maxWait = 10;
          diff = uint (Remaining latest) - uint (Remaining rl)
      in if diff > 0 then
           (let num = uint (Remaining rl) sdiv diff;
                num = (if num = 0 then num + 1 else num);
                wait = int64_quo (Reset rl - nowUnix) (word_of_int num)
            in if sint wait > sint maxWait then wait else maxWait)
         else maxWait)"

text \<open>
  The loop over the fetched Timeline: each Status is parsed again (an error ends
  \<^verbatim>\<open>Run\<close>) and shown to the mentioner, if there is one; the mentions are logged.
\<close>

type_synonym mentioner = "(tweet \<Rightarrow> string option) option"

fun dispatch ::
  "parser \<Rightarrow> mentioner \<Rightarrow> tweet list \<Rightarrow> string list \<Rightarrow> string list \<times> error option" where
  "dispatch parse mentioner [] logged = (logged, None)"
| "dispatch parse mentioner (tweet # timeline) logged =
     (case CreatedAtTime parse tweet of
        (createdAt, Some e) \<Rightarrow> (logged, Some e)
      | (createdAt, None) \<Rightarrow>
          (case mentioner of
             None \<Rightarrow> dispatch parse mentioner timeline logged
           | Some m \<Rightarrow>
               (case m tweet of
                  None \<Rightarrow> dispatch parse mentioner timeline logged
                | Some mention \<Rightarrow> dispatch parse mentioner timeline (logged @ [mention]))))"

text \<open>
  The body of the loop of \<^verbatim>\<open>Run\<close>, from the values \<open>ret\<close> that \<^verbatim>\<open>followersTimeline\<close>
  returned: the log, and either the error that \<^verbatim>\<open>Run\<close> returns or the state of the
  next iteration with the number of seconds to wait. Reading through a nil rate-limit
  pointer would be a panic.
\<close>

definition nilDereference :: error where
  "nilDereference = Error ''invalid memory address or nil pointer dereference''"

definition Run_iteration ::
  "parser \<Rightarrow> mentioner \<Rightarrow> botState \<Rightarrow>
   tweet list \<times> rateLimitStatus option \<times> error option \<Rightarrow> 64 word \<Rightarrow>
   string list \<times> (error + botState \<times> 64 word)" where
  "Run_iteration parse mentioner st ret nowUnix =
     (case ret of (timeline, rl, err) \<Rightarrow>
        (case err of
           Some e \<Rightarrow> ([], Inl e)
         | None \<Rightarrow>
             (case dispatch parse mentioner timeline [] of
                (logged, Some e) \<Rightarrow> (logged, Inl e)
              | (logged, None) \<Rightarrow>
                  (case (if length timeline > 0 then CreatedAtTime parse (last timeline)
                         else (latestCreatedAt st, None)) of
                     (t, Some e) \<Rightarrow> (logged, Inl e)
                   | (t, None) \<Rightarrow>
                       (case rl of
                          None \<Rightarrow> (logged, Inl nilDereference)
                        | Some r \<Rightarrow>
                            (logged,
                             Inr (\<lparr>latestRateLimit = r, latestCreatedAt = t\<rparr>,
                                  waitSeconds (latestRateLimit st) r nowUnix)))))))"

text \<open>
  The states that the loop of \<^verbatim>\<open>Run\<close> reaches from a state \<open>st\<close>: each iteration calls
  \<^verbatim>\<open>followersTimeline\<close> with the watermark of the state and goes on when the body
  returned no error.
\<close>

inductive Run_loop :: "parser \<Rightarrow> mentioner \<Rightarrow> botState \<Rightarrow> botState \<Rightarrow> bool"
  for parse :: parser and mentioner :: mentioner and st :: botState where
  start: "Run_loop parse mentioner st st"
| iteration:
    "Run_loop parse mentioner st st1 \<Longrightarrow>
     followersTimeline parse idsResults lookups (latestCreatedAt st1) ret \<Longrightarrow>
     snd (Run_iteration parse mentioner st1 ret nowUnix) = Inr (st2, wait) \<Longrightarrow>
     Run_loop parse mentioner st st2"

section \<open>The identifier cache\<close>

record idsStore =
  expires :: time
  ids :: "int list"

definition Minute :: duration where
  "Minute = 60 * 1000000000"

text \<open>\<^verbatim>\<open>setIds\<close>; \<open>now\<close> is the value of \<^verbatim>\<open>time.Now()\<close>.\<close>

definition setIds :: "time \<Rightarrow> idsStore \<Rightarrow> int list \<Rightarrow> duration \<Rightarrow> idsStore" where
  "setIds now store new_ids d =
     (let d = (if d = 0 then 15 * Minute else d)
      in store\<lparr>ids := new_ids, expires := now + d\<rparr>)"

text \<open>
  The shuffle of \<^verbatim>\<open>pickIds\<close>: \<^verbatim>\<open>for i := n - 1; i >= 0; i-- { j := rand.Intn(i + 1); swap }\<close>.
  \<^verbatim>\<open>rand.Intn(k)\<close> returns some number from 0 up to \<open>k - 1\<close>: the model takes the draw
  of the iteration \<open>i\<close> from a sequence \<open>rnd\<close> and reduces it modulo \<open>i + 1\<close>. The
  counter of the model is \<open>i + 1\<close>, so that 0 ends the loop.
\<close>

fun shuffle :: "(nat \<Rightarrow> nat) \<Rightarrow> nat \<Rightarrow> int list \<Rightarrow> int list" where
  "shuffle rnd 0 xs = xs"
| "shuffle rnd (Suc i) xs =
     (let j = rnd i mod (i + 1)
      in shuffle rnd i (xs[i := xs ! j, j := xs ! i]))"

text \<open>
  \<^verbatim>\<open>pickIds\<close> returns the slice and leaves the shuffled identifiers in the store. The
  empty list stands for the nil slice of the early return.
\<close>

definition pickIds :: "time \<Rightarrow> (nat \<Rightarrow> nat) \<Rightarrow> idsStore \<Rightarrow> int list \<times> idsStore" where
  "pickIds now rnd store =
     (if now > expires store then ([], store)
      else
        (let n = length (ids store);
             store' = store\<lparr>ids := shuffle rnd n (ids store)\<rparr>;
             maxNum = 1000;
             maxNum = (if length (ids store') < maxNum then length (ids store') else maxNum)
         in (take maxNum (ids store'), store')))"

section \<open>A fetch round for the examples\<close>

text \<open>
  The Statuses of the test \<^verbatim>\<open>TestFollowersTimeline\<close>, posted 5, 8 and 2 minutes before
  the instant 0, for an account with 101 followers: the first batch of 100 identifiers
  resolves to the Accounts of "foo" and "bar" and to one Account without a Status, the
  second batch to the Account of "baz". The first response carries the rate-limit
  headers of the test, the second none.
\<close>

definition exampleParse :: parser where
  "exampleParse s =
     (if s = ''5 minutes ago'' then (- 5 * Minute, None)
      else if s = ''8 minutes ago'' then (- 8 * Minute, None)
      else if s = ''2 minutes ago'' then (- 2 * Minute, None)
      else (0, Some (Error ''cannot parse'')))"

text \<open>A parser that fails on the timestamp of "bar".\<close>

definition failingParse :: parser where
  "failingParse s =
     (if s = ''8 minutes ago'' then (0, Some (Error ''cannot parse'')) else exampleParse s)"

definition foo :: tweet where
  "foo = Tweet ''1'' ''5 minutes ago'' ''foo'' (User 0 [] None)"

definition bar :: tweet where
  "bar = Tweet ''2'' ''8 minutes ago'' ''bar'' (User 0 [] None)"

definition baz :: tweet where
  "baz = Tweet ''3'' ''2 minutes ago'' ''baz'' (User 0 [] None)"

definition exampleIds :: "int list" where
  "exampleIds = map int [1..<102]"

definition exampleRateLimit :: rateLimitStatus where
  "exampleRateLimit = \<lparr>Limit = 10, Remaining = 15, Reset = 900\<rparr>"

definition exampleLookups :: "(int list \<times> result) list" where
  "exampleLookups =
     [(take 100 exampleIds,
       Inr \<lparr>rateLimit = Some exampleRateLimit,
            results = [User 1 ''a'' (Some foo), User 2 ''b'' (Some bar), User 3 ''c'' None]\<rparr>),
      (drop 100 exampleIds,
       Inr \<lparr>rateLimit = None, results = [User 101 ''d'' (Some baz)]\<rparr>)]"

text \<open>
  A round in which both responses carry an observation and resolve no Account: the
  second observation has the same reset as the first and more remaining calls.
\<close>

definition twoObservations :: "(int list \<times> result) list" where
  "twoObservations =
     [(take 100 exampleIds,
       Inr \<lparr>rateLimit = Some \<lparr>Limit = 15, Remaining = 3, Reset = 10\<rparr>, results = []\<rparr>),
      (drop 100 exampleIds,
       Inr \<lparr>rateLimit = Some \<lparr>Limit = 15, Remaining = 5, Reset = 10\<rparr>, results = []\<rparr>)]"

text \<open>
  A round for an account with 13 followers: one batch that resolves to 13 Accounts, each
  with a Status. The Statuses of the first twelve parse to the same instant 1, that of
  the thirteenth to the earlier instant 0. \<open>tieTweet\<close> is a Status as the collecting
  loop appends it, with its Account; \<open>tieTimeline\<close> lists them in the order of
  accumulation.
\<close>

definition tieParse :: parser where
  "tieParse s = (if s = ''earlier'' then (0, None) else (1, None))"

definition tieUser :: "int \<Rightarrow> string \<Rightarrow> string \<Rightarrow> user" where
  "tieUser i idStr createdAt = User i [] (Some (Tweet idStr createdAt [] (User 0 [] None)))"

definition tieTweet :: "int \<Rightarrow> string \<Rightarrow> string \<Rightarrow> tweet" where
  "tieTweet i idStr createdAt =
     setUser (Tweet idStr createdAt [] (User 0 [] None)) (tieUser i idStr createdAt)"

definition tieIds :: "int list" where
  "tieIds = map int [1..<14]"

definition tieLookups :: "(int list \<times> result) list" where
  "tieLookups =
     [(tieIds,
       Inr \<lparr>rateLimit = None,
            results =
              [tieUser 1 ''1'' ''later'', tieUser 2 ''2'' ''later'',
               tieUser 3 ''3'' ''later'', tieUser 4 ''4'' ''later'',
               tieUser 5 ''5'' ''later'', tieUser 6 ''6'' ''later'',
               tieUser 7 ''7'' ''later'', tieUser 8 ''8'' ''later'',
               tieUser 9 ''9'' ''later'', tieUser 10 ''10'' ''later'',
               tieUser 11 ''11'' ''later'', tieUser 12 ''12'' ''later'',
               tieUser 13 ''13'' ''earlier'']\<rparr>)]"

definition tieTimeline :: "tweet list" where
  "tieTimeline =
     [tieTweet 1 ''1'' ''later'', tieTweet 2 ''2'' ''later'',
      tieTweet 3 ''3'' ''later'', tieTweet 4 ''4'' ''later'',
      tieTweet 5 ''5'' ''later'', tieTweet 6 ''6'' ''later'',
      tieTweet 7 ''7'' ''later'', tieTweet 8 ''8'' ''later'',
      tieTweet 9 ''9'' ''later'', tieTweet 10 ''10'' ''later'',
      tieTweet 11 ''11'' ''later'', tieTweet 12 ''12'' ''later'',
      tieTweet 13 ''13'' ''earlier'']"

definition tieSorted :: "tweet list" where
  "tieSorted =
     [tieTweet 13 ''13'' ''earlier'', tieTweet 7 ''7'' ''later'',
      tieTweet 3 ''3'' ''later'', tieTweet 4 ''4'' ''later'',
      tieTweet 5 ''5'' ''later'', tieTweet 6 ''6'' ''later'',
      tieTweet 1 ''1'' ''later'', tieTweet 8 ''8'' ''later'',
      tieTweet 9 ''9'' ''later'', tieTweet 10 ''10'' ''later'',
      tieTweet 11 ''11'' ''later'', tieTweet 12 ''12'' ''later'',
      tieTweet 2 ''2'' ''later'']"

section \<open>Properties of the batch producer\<close>

lemma producer_unfold:
  "producer m xs =
     (if length xs \<le> m then [] else take 100 (drop m xs) # producer (m + 100) xs)"
  by (subst producer.simps) (auto simp: Let_def)

lemma producer_past_end: "length xs \<le> m \<Longrightarrow> producer m xs = []"
  by (subst producer_unfold) simp

lemma producer_step:
  "m < length xs \<Longrightarrow> producer m xs = take 100 (drop m xs) # producer (m + 100) xs"
  by (subst producer_unfold) simp

lemma concat_producer: "concat (producer m xs) = drop m xs"
proof (induction "length xs - m" arbitrary: m rule: less_induct)
  case less
  show ?case
  proof (cases "length xs \<le> m")
    case True
    then show ?thesis by (simp add: producer_past_end)
  next
    case False
    then have "concat (producer (m + 100) xs) = drop (m + 100) xs"
      by (intro less) simp
    moreover have "take 100 (drop m xs) @ drop (m + 100) xs = drop m xs"
      by (metis add.commute append_take_drop_id drop_drop)
    ultimately show ?thesis using False by (simp add: producer_step)
  qed
qed

lemma length_producer: "length (producer m xs) = (length xs - m + 99) div 100"
proof (induction "length xs - m" arbitrary: m rule: less_induct)
  case less
  show ?case
  proof (cases "length xs \<le> m")
    case True
    then show ?thesis by (simp add: producer_past_end)
  next
    case False
    then have "length (producer (m + 100) xs) = (length xs - (m + 100) + 99) div 100"
      by (intro less) simp
    moreover have "(length xs - m + 99) div 100 = Suc ((length xs - (m + 100) + 99) div 100)"
    proof (cases "length xs - m \<le> 100")
      case True
      have "(length xs - m + 99) div 100 = 1"
        using True False by (intro div_nat_eqI) simp_all
      moreover have "length xs - (m + 100) = 0"
        using True by simp
      ultimately show ?thesis by simp
    next
      case False
      then have "length xs - m + 99 = (length xs - (m + 100) + 99) + 100"
        by simp
      then show ?thesis by (simp only: div_add_self2)
    qed
    ultimately show ?thesis using False by (simp add: producer_step)
  qed
qed

lemma producer_batch_size:
  "b \<in> set (producer m xs) \<Longrightarrow> b \<noteq> [] \<and> length b \<le> 100"
proof (induction "length xs - m" arbitrary: m rule: less_induct)
  case less
  show ?case
  proof (cases "length xs \<le> m")
    case True
    with less.prems show ?thesis by (simp add: producer_past_end)
  next
    case False
    then have IH: "b \<in> set (producer (m + 100) xs) \<Longrightarrow> b \<noteq> [] \<and> length b \<le> 100"
      by (intro less) simp_all
    from less.prems False have "b = take 100 (drop m xs) \<or> b \<in> set (producer (m + 100) xs)"
      by (simp add: producer_step)
    then show ?thesis using IH False by auto
  qed
qed

lemma last_producer:
  "m < length xs \<Longrightarrow>
   length (last (producer m xs)) =
     (if (length xs - m) mod 100 = 0 then 100 else (length xs - m) mod 100)"
proof (induction "length xs - m" arbitrary: m rule: less_induct)
  case less
  show ?case
  proof (cases "m + 100 < length xs")
    case True
    then have "length (last (producer (m + 100) xs)) =
      (if (length xs - (m + 100)) mod 100 = 0 then 100 else (length xs - (m + 100)) mod 100)"
      by (intro less) simp_all
    moreover have "producer (m + 100) xs \<noteq> []"
      using True by (simp add: producer_step)
    moreover have "(length xs - (m + 100)) mod 100 = (length xs - m) mod 100"
      using True by (metis add.commute diff_diff_left le_add_diff_inverse2 less_imp_le_nat mod_add_self2 nat_less_le less_diff_conv)
    ultimately show ?thesis using less.prems by (simp add: producer_step)
  next
    case False
    then have "producer (m + 100) xs = []" by (simp add: producer_past_end)
    moreover have "(length xs - m) mod 100 = 0 \<or> length xs - m = (length xs - m) mod 100"
    proof (cases "length xs - m = 100")
      case True
      then show ?thesis by simp
    next
      case False
      with \<open>\<not> m + 100 < length xs\<close> have "length xs - m < 100" by linarith
      then show ?thesis by simp
    qed
    moreover have "length (last (producer m xs)) = min (length xs - m) 100"
      using less.prems \<open>producer (m + 100) xs = []\<close> by (simp add: producer_step)
    moreover have "0 < length xs - m" and "length xs - m \<le> 100"
      using less.prems False by simp_all
    ultimately show ?thesis by (auto simp add: min_def dest: dvd_imp_le)
  qed
qed

text \<open>
  C5: for a list of \<open>N\<close> identifiers the producer sends \<open>ceil(N/100)\<close> batches (the
  number \<open>k\<close> with \<open>N \<le> 100 * k < N + 100\<close>), none when \<open>N = 0\<close>; no batch is empty or
  longer than 100; the last batch has \<open>N mod 100\<close> identifiers, or 100 when \<open>N\<close> is a
  positive multiple of 100; and the batches, concatenated in the order in which they
  are sent, are the input list.
\<close>

theorem producer_batches:
  "length (producer 0 xs) = (length xs + 99) div 100
   \<and> length xs \<le> 100 * length (producer 0 xs)
   \<and> 100 * length (producer 0 xs) < length xs + 100
   \<and> (xs = [] \<longrightarrow> producer 0 xs = [])
   \<and> (\<forall>b \<in> set (producer 0 xs). b \<noteq> [] \<and> length b \<le> 100)
   \<and> (xs \<noteq> [] \<longrightarrow>
        length (last (producer 0 xs)) =
          (if length xs mod 100 = 0 then 100 else length xs mod 100))
   \<and> concat (producer 0 xs) = xs"
proof -
  have len: "length (producer 0 xs) = (length xs + 99) div 100"
    by (simp add: length_producer)
  define q r where "q = (length xs + 99) div 100" and "r = (length xs + 99) mod 100"
  have "100 * q + r = length xs + 99" and "r < 100"
    by (simp_all add: q_def r_def)
  then have "length xs \<le> 100 * q" and "100 * q < length xs + 100"
    by linarith+
  then have "length xs \<le> 100 * ((length xs + 99) div 100)"
    and "100 * ((length xs + 99) div 100) < length xs + 100"
    by (simp_all add: q_def)
  moreover have "xs = [] \<longrightarrow> producer 0 xs = []"
    by (simp add: producer_past_end)
  moreover have "\<forall>b \<in> set (producer 0 xs). b \<noteq> [] \<and> length b \<le> 100"
    using producer_batch_size by blast
  moreover have "xs \<noteq> [] \<longrightarrow>
        length (last (producer 0 xs)) =
          (if length xs mod 100 = 0 then 100 else length xs mod 100)"
    using last_producer [of 0 xs] by simp
  moreover have "concat (producer 0 xs) = xs"
    by (simp add: concat_producer)
  ultimately show ?thesis using len by simp
qed

theorem producer_batches_witness:
  "replicate 205 (7::int) \<noteq> []
   \<and> producer 0 (replicate 205 7) = [replicate 100 7, replicate 100 7, replicate 5 7]
   \<and> replicate 5 7 \<in> set (producer 0 (replicate 205 7))
   \<and> length (replicate 5 (7::int)) \<le> 100
   \<and> length (last (producer 0 (replicate 205 7))) = 5"
proof -
  have batches: "producer 0 (replicate 205 7) = [replicate 100 7, replicate 100 7, replicate 5 7]"
    by (simp add: producer_step producer_past_end)
  have nonempty: "replicate 205 (7::int) \<noteq> []"
    by simp
  have last5: "length (last (producer 0 (replicate 205 7))) = 5"
    using producer_batches [of "replicate 205 7", THEN conjunct2, THEN conjunct2,
        THEN conjunct2, THEN conjunct2, THEN conjunct2, THEN conjunct1]
    by simp
  have member: "replicate 5 7 \<in> set (producer 0 (replicate 205 7))"
    by (simp add: batches)
  have size: "length (replicate 5 (7::int)) \<le> 100"
    using member producer_batches [of "replicate 205 7"] by blast
  show ?thesis
    by (intro conjI nonempty batches member size last5)
qed

section \<open>Properties of the rate-limit merge\<close>




section \<open>Properties of the identifier cache\<close>

lemma length_shuffle: "length (shuffle rnd k xs) = length xs"
  by (induction k arbitrary: xs) (simp_all add: Let_def)

lemma mset_shuffle: "k \<le> length xs \<Longrightarrow> mset (shuffle rnd k xs) = mset xs"
proof (induction k arbitrary: xs)
  case 0
  then show ?case by simp
next
  case (Suc i)
  let ?j = "rnd i mod (i + 1)"
  have j: "?j < length xs" and i: "i < length xs"
    using Suc.prems by (simp_all add: less_le_trans [OF mod_less_divisor])
  have "mset (xs[i := xs ! ?j, ?j := xs ! i]) = mset xs"
    using mset_swap [OF j i] .
  moreover have "mset (shuffle rnd i (xs[i := xs ! ?j, ?j := xs ! i])) =
      mset (xs[i := xs ! ?j, ?j := xs ! i])"
    using Suc.prems by (intro Suc.IH) simp
  ultimately show ?case by (simp add: Let_def)
qed

text \<open>
  C8: \<^verbatim>\<open>pickIds\<close> returns the empty result when the current time is after the stored
  expiry. Otherwise it shuffles the stored identifiers in place (the store then holds a
  permutation of them) and returns the prefix of the shuffled store of length
  \<open>min n 1000\<close>, for \<open>n\<close> stored identifiers. \<^verbatim>\<open>setIds\<close> stores the identifiers and
  sets the expiry to the current time plus the ttl, 15 minutes for a zero ttl.
\<close>

theorem pickIds_setIds:
  "(now > expires store \<longrightarrow> pickIds now rnd store = ([], store))
   \<and> (\<not> now > expires store \<longrightarrow>
        fst (pickIds now rnd store) =
          take (min (length (ids store)) 1000) (ids (snd (pickIds now rnd store)))
        \<and> length (fst (pickIds now rnd store)) = min (length (ids store)) 1000
        \<and> mset (ids (snd (pickIds now rnd store))) = mset (ids store)
        \<and> expires (snd (pickIds now rnd store)) = expires store)
   \<and> expires (setIds now store new_ids 0) = now + 15 * 60 * 1000000000
   \<and> (d \<noteq> 0 \<longrightarrow> expires (setIds now store new_ids d) = now + d)
   \<and> ids (setIds now store new_ids d) = new_ids"
  by (simp add: pickIds_def setIds_def Minute_def Let_def length_shuffle mset_shuffle min_def)

theorem pickIds_setIds_witness:
  "\<not> 50 > expires \<lparr>expires = 100, ids = [1, 2, 3]\<rparr>
   \<and> pickIds 50 (\<lambda>i. 1) \<lparr>expires = 100, ids = [1, 2, 3]\<rparr>
       = ([1, 3, 2], \<lparr>expires = 100, ids = [1, 3, 2]\<rparr>)
   \<and> 101 > expires \<lparr>expires = 100, ids = [1, 2, 3]\<rparr>
   \<and> pickIds 101 (\<lambda>i. 1) \<lparr>expires = 100, ids = [1, 2, 3]\<rparr>
       = ([], \<lparr>expires = 100, ids = [1, 2, 3]\<rparr>)
   \<and> expires (setIds 50 \<lparr>expires = 100, ids = [1, 2, 3]\<rparr> [1, 2, 3] 0) = 900000000050
   \<and> (7::int) \<noteq> 0
   \<and> expires (setIds 50 \<lparr>expires = 100, ids = [1, 2, 3]\<rparr> [1, 2, 3] 7) = 57"
  using pickIds_setIds [where now = 50 and store = "\<lparr>expires = 100, ids = [1, 2, 3]\<rparr>"
      and rnd = "\<lambda>i. 1" and new_ids = "[1, 2, 3]" and d = 7]
    pickIds_setIds [where now = 101 and store = "\<lparr>expires = 100, ids = [1, 2, 3]\<rparr>"
      and rnd = "\<lambda>i. 1" and new_ids = "[1, 2, 3]" and d = 7]
  by (simp add: pickIds_def setIds_def Minute_def Let_def)

section \<open>Properties of the wait interval\<close>

lemma sint_word_of_int64:
  assumes "- (2 ^ 63) \<le> k" and "k < 2 ^ 63"
  shows "sint (word_of_int k :: 64 word) = k"
  using assms by (simp add: sint_sbintrunc' signed_take_bit_int_eq_self)

lemma div_pos_le_self:
  fixes y n :: int
  assumes "0 \<le> y" and "1 \<le> n"
  shows "0 \<le> y div n" and "y div n \<le> y"
proof -
  show "0 \<le> y div n"
    using assms by (simp add: pos_imp_zdiv_nonneg_iff)
  have "y div n \<le> y div 1"
    using assms by (intro zdiv_mono2) simp_all
  then show "y div n \<le> y" by simp
qed

lemma sdiv_nonneg_pos:
  fixes x n :: int
  assumes "0 \<le> x" and "1 \<le> n"
  shows "x sdiv n = x div n"
  using assms by (cases "x = 0") (simp_all add: signed_divide_int_def)

lemma sdiv_pos_bounds:
  fixes x n :: int
  assumes "1 \<le> n"
  shows "min x 0 \<le> x sdiv n" and "x sdiv n \<le> max x 0"
proof -
  consider "0 \<le> x" | "x < 0" by linarith
  then have "min x 0 \<le> x sdiv n \<and> x sdiv n \<le> max x 0"
  proof cases
    case 1
    then have "x sdiv n = x div n"
      using assms by (cases "x = 0") (simp_all add: signed_divide_int_def)
    then show ?thesis
      using div_pos_le_self [OF 1 assms] 1 by simp
  next
    case 2
    then have "x sdiv n = - ((- x) div n)"
      using assms by (simp add: signed_divide_int_def)
    moreover have "0 \<le> (- x) div n" and "(- x) div n \<le> - x"
      using div_pos_le_self [of "- x" n] 2 assms by simp_all
    ultimately show ?thesis using 2 by simp
  qed
  then show "min x 0 \<le> x sdiv n" and "x sdiv n \<le> max x 0" by simp_all
qed

lemma sint_int64_quo:
  assumes "1 \<le> n" and "n < 2 ^ 32"
  shows "sint (int64_quo a (word_of_int n)) = sint a sdiv n"
proof -
  have n: "sint (word_of_int n :: 64 word) = n"
    using assms by (intro sint_word_of_int64) simp_all
  have "- (2 ^ 63) \<le> sint a" and "sint a < 2 ^ 63"
    using sint_ge [of a] sint_lt [of a] by simp_all
  moreover have "min (sint a) 0 \<le> sint a sdiv n" and "sint a sdiv n \<le> max (sint a) 0"
    using assms(1) by (rule sdiv_pos_bounds)+
  ultimately have "- (2 ^ 63) \<le> sint a sdiv n" and "sint a sdiv n < 2 ^ 63"
    by (simp_all add: min_def max_def split: if_splits)
  then have "sint (word_of_int (sint a sdiv n) :: 64 word) = sint a sdiv n"
    by (rule sint_word_of_int64)
  then show ?thesis by (simp add: int64_quo_def n)
qed

text \<open>Where the quotient is compared with the floor 10, rounding down gives the same.\<close>

lemma max_10_sdiv_eq_div:
  fixes x n :: int
  assumes "1 \<le> n"
  shows "max 10 (x sdiv n) = max 10 (x div n)"
proof (cases "0 \<le> x")
  case True
  then have "x sdiv n = x div n"
    using assms by (cases "x = 0") (simp_all add: signed_divide_int_def)
  then show ?thesis by simp
next
  case False
  then have "x sdiv n \<le> 0"
    using sdiv_pos_bounds(2) [OF assms, of x] by simp
  moreover have "x div n \<le> 0"
    using False assms by (simp add: div_nonpos_pos_le0)
  ultimately show ?thesis by simp
qed

lemma waitSeconds_sint:
  "sint (waitSeconds latest rl nowUnix) =
     (if uint (Remaining latest) - uint (Remaining rl) \<le> 0 then 10
      else max 10 (sint (Reset rl - nowUnix) sdiv
             max 1 (uint (Remaining rl) div (uint (Remaining latest) - uint (Remaining rl)))))"
proof (cases "uint (Remaining latest) - uint (Remaining rl) \<le> 0")
  case True
  then show ?thesis by (simp add: waitSeconds_def Let_def)
next
  case False
  define diff where "diff = uint (Remaining latest) - uint (Remaining rl)"
  define num where "num = uint (Remaining rl) div diff"
  define num' where "num' = (if num = 0 then num + 1 else num)"
  have diff: "0 < diff" using False by (simp add: diff_def)
  have "uint (Remaining rl) sdiv diff = num"
    using diff by (simp add: num_def sdiv_nonneg_pos)
  have "0 \<le> num" and "num \<le> uint (Remaining rl)"
    using div_pos_le_self [of "uint (Remaining rl)" diff] diff by (simp_all add: num_def)
  then have num': "num' = max 1 num" "1 \<le> num'" "num' < 2 ^ 32"
    using uint_lt2p [of "Remaining rl"] by (auto simp add: num'_def)
  have "sint (waitSeconds latest rl nowUnix) =
      (let wait = int64_quo (Reset rl - nowUnix) (word_of_int num')
       in if sint wait > 10 then sint wait else 10)"
    using diff \<open>uint (Remaining rl) sdiv diff = num\<close>
    by (simp add: waitSeconds_def Let_def diff_def [symmetric] num'_def)
  also have "\<dots> = max 10 (sint (Reset rl - nowUnix) sdiv num')"
    by (simp add: sint_int64_quo [OF num'(2,3)] Let_def max_def)
  finally show ?thesis
    using False by (simp add: num'(1) num_def diff_def)
qed


lemma sint_diff_int64:
  fixes a b :: "64 word"
  assumes "- (2 ^ 63) \<le> sint a - sint b" and "sint a - sint b < 2 ^ 63"
  shows "sint (a - b) = sint a - sint b"
proof -
  have "a - b = word_of_int (sint a) - word_of_int (sint b)"
    by simp
  also have "\<dots> = word_of_int (sint a - sint b)"
    by simp
  finally have "sint (a - b) = sint (word_of_int (sint a - sint b) :: 64 word)"
    by simp
  then show ?thesis
    using sint_word_of_int64 [OF assms] by simp
qed

text \<open>
  C4: with \<open>diff = prior.remaining - current.remaining\<close>, the wait is 10 seconds when
  \<open>diff \<le> 0\<close>, and otherwise \<open>max(10, (current.reset - now) / max(1, current.remaining / diff))\<close>
  with integer division. The first conjunct reads the subtraction and the division as
  Go's int64 operations; the second states the same with mathematical integers (rounding
  down gives the same value under the floor of 10) when the difference of the two Unix
  times fits int64. For remaining 180, then 165, and a reset 900 seconds ahead, the
  wait is 81 seconds.
\<close>

theorem waitSeconds_value:
  "sint (waitSeconds latest rl nowUnix) =
     (if uint (Remaining latest) - uint (Remaining rl) \<le> 0 then 10
      else max 10 (sint (Reset rl - nowUnix) sdiv
             max 1 (uint (Remaining rl) div (uint (Remaining latest) - uint (Remaining rl)))))
   \<and> (- (2 ^ 63) \<le> sint (Reset rl) - sint nowUnix \<and> sint (Reset rl) - sint nowUnix < 2 ^ 63 \<longrightarrow>
        sint (waitSeconds latest rl nowUnix) =
          (if uint (Remaining latest) - uint (Remaining rl) \<le> 0 then 10
           else max 10 ((sint (Reset rl) - sint nowUnix) div
                  max 1 (uint (Remaining rl) div (uint (Remaining latest) - uint (Remaining rl))))))
   \<and> (Remaining latest = 180 \<and> Remaining rl = 165 \<and> Reset rl = nowUnix + 900 \<longrightarrow>
        waitSeconds latest rl nowUnix = 81)"
proof (intro conjI impI)
  show machine: "sint (waitSeconds latest rl nowUnix) =
     (if uint (Remaining latest) - uint (Remaining rl) \<le> 0 then 10
      else max 10 (sint (Reset rl - nowUnix) sdiv
             max 1 (uint (Remaining rl) div (uint (Remaining latest) - uint (Remaining rl)))))"
    by (rule waitSeconds_sint)
  show "sint (waitSeconds latest rl nowUnix) =
          (if uint (Remaining latest) - uint (Remaining rl) \<le> 0 then 10
           else max 10 ((sint (Reset rl) - sint nowUnix) div
                  max 1 (uint (Remaining rl) div (uint (Remaining latest) - uint (Remaining rl)))))"
    if "- (2 ^ 63) \<le> sint (Reset rl) - sint nowUnix \<and> sint (Reset rl) - sint nowUnix < 2 ^ 63"
  proof -
    have "sint (Reset rl - nowUnix) = sint (Reset rl) - sint nowUnix"
      using that by (intro sint_diff_int64) simp_all
    then show ?thesis
      by (simp add: waitSeconds_sint max_10_sdiv_eq_div)
  qed
  show "waitSeconds latest rl nowUnix = 81"
    if "Remaining latest = 180 \<and> Remaining rl = 165 \<and> Reset rl = nowUnix + 900"
  proof -
    have "sint (waitSeconds latest rl nowUnix) = max 10 (900 sdiv 11)"
      using that by (simp add: waitSeconds_sint)
    also have "\<dots> = 81"
      by (simp add: signed_divide_int_def)
    finally have "word_of_int (sint (waitSeconds latest rl nowUnix)) = (word_of_int 81 :: 64 word)"
      by simp
    then show ?thesis by simp
  qed
qed

theorem waitSeconds_value_witness:
  "- (2 ^ 63) \<le> sint (1900 :: 64 word) - sint (1000 :: 64 word)
   \<and> sint (1900 :: 64 word) - sint (1000 :: 64 word) < 2 ^ 63
   \<and> (1900 :: 64 word) = 1000 + 900
   \<and> waitSeconds \<lparr>Limit = 180, Remaining = 180, Reset = 1900\<rparr>
        \<lparr>Limit = 180, Remaining = 165, Reset = 1900\<rparr> 1000 = 81
   \<and> sint (waitSeconds \<lparr>Limit = 180, Remaining = 180, Reset = 1900\<rparr>
        \<lparr>Limit = 180, Remaining = 165, Reset = 1900\<rparr> 1000) = max 10 (900 div max 1 (165 div 15))"
  using waitSeconds_value [of "\<lparr>Limit = 180, Remaining = 180, Reset = 1900\<rparr>"
      "\<lparr>Limit = 180, Remaining = 165, Reset = 1900\<rparr>" 1000]
  by simp

section \<open>Properties of followersTimeline\<close>

lemma CreatedAtTime_setUser [simp]: "CreatedAtTime parse (setUser t u) = CreatedAtTime parse t"
  by (simp add: CreatedAtTime_def setUser_def)

lemma recent_Nil [simp]: "recent parse since [] = []"
  by (simp add: recent_def)

lemma recent_append: "recent parse since (us @ vs) = recent parse since us @ recent parse since vs"
  by (simp add: recent_def)

lemma recent_Cons:
  "recent parse since (u # us) =
     (case Status u of
        None \<Rightarrow> []
      | Some tweet \<Rightarrow> if fst (CreatedAtTime parse tweet) > since then [setUser tweet u] else [])
     @ recent parse since us"
  by (simp add: recent_def)

lemma recent_after: "t \<in> set (recent parse since users) \<Longrightarrow> fst (CreatedAtTime parse t) > since"
  by (auto simp add: recent_def split: option.splits if_splits)

lemma appendStatuses_clean:
  "parseFailure parse users = None \<Longrightarrow>
   appendStatuses parse since users timeline = Inr (timeline @ recent parse since users)"
proof (induction users arbitrary: timeline)
  case Nil
  then show ?case by simp
next
  case (Cons u users)
  show ?case
  proof (cases "Status u")
    case None
    with Cons show ?thesis by (simp add: recent_Cons)
  next
    case (Some tweet)
    obtain t e where p: "CreatedAtTime parse tweet = (t, e)" by (cases "CreatedAtTime parse tweet")
    with Cons.prems Some have e: "e = None" and rest: "parseFailure parse users = None"
      by (auto split: option.splits)
    show ?thesis
      using Some p e Cons.IH [OF rest] by (simp add: recent_Cons)
  qed
qed

lemma appendStatuses_failure:
  "parseFailure parse users = Some e \<Longrightarrow> appendStatuses parse since users timeline = Inl e"
proof (induction users arbitrary: timeline)
  case Nil
  then show ?case by simp
next
  case (Cons u users)
  show ?case
  proof (cases "Status u")
    case None
    with Cons show ?thesis by simp
  next
    case (Some tweet)
    obtain t e' where p: "CreatedAtTime parse tweet = (t, e')" by (cases "CreatedAtTime parse tweet")
    show ?thesis
    proof (cases e')
      case None
      with Cons.prems Some p have "parseFailure parse users = Some e" by simp
      then show ?thesis using Some p None Cons.IH by simp
    next
      case (Some e'')
      with Cons.prems \<open>Status u = Some tweet\<close> p show ?thesis by simp
    qed
  qed
qed

lemma resolved_Nil [simp]: "resolved [] = []"
  by (simp add: resolved_def)

lemma resolved_Cons_Inr [simp]: "resolved (Inr a # rs) = results a @ resolved rs"
  by (simp add: resolved_def)

lemma collect_clean:
  "\<forall>r \<in> set rs. failure parse r = None \<Longrightarrow>
   \<exists>rl'. collect parse since rs rl timeline =
     (timeline @ recent parse since (resolved rs), Some rl', None)"
proof (induction rs arbitrary: rl timeline)
  case Nil
  then show ?case by simp
next
  case (Cons r rs)
  from Cons.prems obtain a where r: "r = Inr a" and a: "parseFailure parse (results a) = None"
    by (cases r) (simp_all add: failure_def)
  from Cons.prems have "\<forall>r \<in> set rs. failure parse r = None" by simp
  from Cons.IH [OF this] obtain rl' where
    "collect parse since rs (mergeRateLimit rl (rateLimit a))
       (timeline @ recent parse since (results a)) =
     ((timeline @ recent parse since (results a)) @ recent parse since (resolved rs), Some rl', None)"
    by blast
  then show ?case
    using r by (simp add: appendStatuses_clean [OF a] recent_append)
qed

lemma collect_failure:
  "\<forall>r \<in> set pre. failure parse r = None \<Longrightarrow> failure parse x = Some e \<Longrightarrow>
   collect parse since (pre @ x # post) rl timeline = ([], None, Some e)"
proof (induction pre arbitrary: rl timeline)
  case Nil
  show ?case
  proof (cases x)
    case (Inl e')
    with Nil show ?thesis by (simp add: failure_def)
  next
    case (Inr a)
    with Nil have "parseFailure parse (results a) = Some e" by (simp add: failure_def)
    then show ?thesis using Inr by (simp add: appendStatuses_failure)
  qed
next
  case (Cons r pre)
  from Cons.prems obtain a where r: "r = Inr a" and a: "parseFailure parse (results a) = None"
    by (cases r) (simp_all add: failure_def)
  from Cons.prems have "\<forall>r \<in> set pre. failure parse r = None" by simp
  from Cons.IH [OF this Cons.prems(2)] show ?case
    using r by (simp add: appendStatuses_clean [OF a])
qed

lemma collect_no_error_clean:
  "snd (snd (collect parse since rs rl timeline)) = None \<Longrightarrow> \<forall>r \<in> set rs. failure parse r = None"
proof (rule ccontr)
  assume ok: "snd (snd (collect parse since rs rl timeline)) = None"
  assume "\<not> (\<forall>r \<in> set rs. failure parse r = None)"
  then obtain pre x post where split: "rs = pre @ x # post"
    and x: "failure parse x \<noteq> None" and pre: "\<forall>r \<in> set pre. failure parse r = None"
    using split_list_first_prop [of rs "\<lambda>r. failure parse r \<noteq> None"] by auto
  from x obtain e where "failure parse x = Some e" by auto
  from collect_failure [OF pre this] split ok show False by simp
qed


lemma collect_no_observation:
  "\<forall>r \<in> set rs. failure parse r = None \<Longrightarrow>
   \<forall>r \<in> set rs. \<forall>a. r = Inr a \<longrightarrow> rateLimit a = None \<Longrightarrow>
   collect parse since rs rl timeline =
     (timeline @ recent parse since (resolved rs), Some rl, None)"
proof (induction rs arbitrary: timeline)
  case Nil
  then show ?case by simp
next
  case (Cons r rs)
  from Cons.prems obtain a where r: "r = Inr a" and a: "parseFailure parse (results a) = None"
    by (cases r) (simp_all add: failure_def)
  from Cons.prems r have none: "rateLimit a = None" by simp
  from Cons.prems have "\<forall>r \<in> set rs. failure parse r = None"
    and "\<forall>r \<in> set rs. \<forall>a. r = Inr a \<longrightarrow> rateLimit a = None" by simp_all
  from Cons.IH [OF this] show ?case
    using r none by (simp add: appendStatuses_clean [OF a] recent_append mergeRateLimit_def)
qed

lemma mset_recent_resolved:
  "mset (recent parse since (resolved rs)) =
     sum_mset (image_mset
       (\<lambda>r. mset (recent parse since (case r of Inl e \<Rightarrow> [] | Inr a \<Rightarrow> results a))) (mset rs))"
proof (induction rs)
  case Nil
  then show ?case by simp
next
  case (Cons r rs)
  have "resolved (r # rs) = (case r of Inl e \<Rightarrow> [] | Inr a \<Rightarrow> results a) @ resolved rs"
    by (simp add: resolved_def)
  then show ?case using Cons by (simp add: recent_append)
qed

lemma mset_recent_resolved_cong:
  "mset rs' = mset rs \<Longrightarrow>
   mset (recent parse since (resolved rs')) = mset (recent parse since (resolved rs))"
  by (simp add: mset_recent_resolved)

lemma sorted_wrt_not_Less:
  "sorted_wrt (\<lambda>a b. \<not> Less parse b a) ys =
   sorted_wrt (\<lambda>a b. fst (CreatedAtTime parse a) \<le> fst (CreatedAtTime parse b)) ys"
  by (simp add: Less_def not_less)

lemma followersTimeline_success:
  assumes "followersTimeline parse (Inr xs) lookups since (timeline, rl, None)"
  shows "mset (map fst lookups) = mset (producer 0 xs)"
    and "\<forall>r \<in> set lookups. failure parse (snd r) = None"
    and "mset timeline = mset (fst (collect parse since (map snd lookups) zeroRateLimit []))"
    and "fst (collect parse since (map snd lookups) zeroRateLimit []) =
           recent parse since (resolved (map snd lookups))"
    and "sorted_wrt (\<lambda>a b. fst (CreatedAtTime parse a) \<le> fst (CreatedAtTime parse b)) timeline"
    and "\<exists>r. rl = Some r"
proof -
  obtain tl0 rl0 err0 where c: "collect parse since (map snd lookups) zeroRateLimit [] = (tl0, rl0, err0)"
    by (cases "collect parse since (map snd lookups) zeroRateLimit []") auto
  from assms c have arrival: "mset (map fst lookups) = mset (producer 0 xs)"
    and ret: "rl = rl0" "err0 = None"
    and srt: "if tl0 \<noteq> [] then sort_Sort (Less parse) tl0 timeline else timeline = []"
    by (auto simp add: followersTimeline_def)
  from c ret have "snd (snd (collect parse since (map snd lookups) zeroRateLimit [])) = None"
    by simp
  then have clean: "\<forall>r \<in> set (map snd lookups). failure parse r = None"
    by (rule collect_no_error_clean)
  from collect_clean [OF clean, of since zeroRateLimit "[]"] c
  obtain r where tl0: "tl0 = recent parse since (resolved (map snd lookups))" and rl0: "rl0 = Some r"
    by auto
  show "mset (map fst lookups) = mset (producer 0 xs)" by (rule arrival)
  show "\<forall>r \<in> set lookups. failure parse (snd r) = None" using clean by simp
  show "mset timeline = mset (fst (collect parse since (map snd lookups) zeroRateLimit []))"
    using srt c by (simp add: sort_Sort_def split: if_splits)
  show "fst (collect parse since (map snd lookups) zeroRateLimit []) =
           recent parse since (resolved (map snd lookups))"
    using c tl0 by simp
  show "sorted_wrt (\<lambda>a b. fst (CreatedAtTime parse a) \<le> fst (CreatedAtTime parse b)) timeline"
    using srt by (simp add: sort_Sort_def sorted_wrt_not_Less split: if_splits)
  show "\<exists>r. rl = Some r" using ret rl0 by simp
qed

lemma followersTimeline_returns:
  assumes "mset (map fst lookups) = mset (producer 0 xs)"
    and "\<forall>r \<in> set lookups. failure parse (snd r) = None"
  shows "\<exists>timeline rl. followersTimeline parse (Inr xs) lookups since (timeline, rl, None)"
proof -
  from assms(2) have "\<forall>r \<in> set (map snd lookups). failure parse r = None" by simp
  from collect_clean [OF this, of since zeroRateLimit "[]"]
  obtain r where c: "collect parse since (map snd lookups) zeroRateLimit [] =
      (recent parse since (resolved (map snd lookups)), Some r, None)"
    by auto
  let ?acc = "recent parse since (resolved (map snd lookups))"
  let ?sorted = "sort_key (\<lambda>t. fst (CreatedAtTime parse t)) ?acc"
  have "sorted (map (\<lambda>t. fst (CreatedAtTime parse t)) ?sorted)"
    by (rule sorted_sort_key)
  then have "sorted_wrt (\<lambda>a b. fst (CreatedAtTime parse a) \<le> fst (CreatedAtTime parse b)) ?sorted"
    by (simp only: sorted_map)
  then have srt: "sort_Sort (Less parse) ?acc ?sorted"
    by (simp add: sort_Sort_def sorted_wrt_not_Less)
  have "followersTimeline parse (Inr xs) lookups since (?sorted, Some r, None)"
  proof (cases "?acc = []")
    case True
    then show ?thesis using assms(1) c by (simp add: followersTimeline_def)
  next
    case False
    then show ?thesis using assms(1) c srt by (simp add: followersTimeline_def)
  qed
  then show ?thesis by blast
qed


lemma producer_exampleIds: "producer 0 exampleIds = [take 100 exampleIds, drop 100 exampleIds]"
proof -
  have len: "length exampleIds = 101" by (simp add: exampleIds_def)
  have "producer 0 exampleIds = take 100 exampleIds # producer 100 exampleIds"
    using producer_step [of 0 exampleIds] len by simp
  moreover have "producer 100 exampleIds = take 100 (drop 100 exampleIds) # producer 200 exampleIds"
    using producer_step [of 100 exampleIds] len by simp
  moreover have "take 100 (drop 100 exampleIds) = drop 100 exampleIds"
    using len by simp
  moreover have "producer 200 exampleIds = []"
    using producer_past_end [of exampleIds 200] len by simp
  ultimately show ?thesis by simp
qed

text \<open>
  C1: when two arrival orders \<open>lookups'\<close> and \<open>lookups\<close> bring the same results, a
  successful call that receives them in the order \<open>lookups'\<close> returns a Timeline that
  holds exactly the resolved Statuses whose parsed creation time is strictly after
  \<open>since\<close> (none created at \<open>since\<close> or before), each once, sorted ascending by parsed
  creation time. Such a call exists whenever no result brings an error.
\<close>

theorem followersTimeline_recent_sorted:
  "(mset lookups' = mset lookups \<and>
    followersTimeline parse (Inr xs) lookups' since (timeline, rl, None) \<longrightarrow>
      mset timeline = mset (recent parse since (resolved (map snd lookups)))
      \<and> (\<forall>t \<in> set timeline. fst (CreatedAtTime parse t) > since)
      \<and> sorted_wrt (\<lambda>a b. fst (CreatedAtTime parse a) \<le> fst (CreatedAtTime parse b)) timeline)
   \<and> (mset (map fst lookups) = mset (producer 0 xs) \<and>
       (\<forall>r \<in> set lookups. failure parse (snd r) = None) \<longrightarrow>
      (\<exists>timeline rl. followersTimeline parse (Inr xs) lookups since (timeline, rl, None)))"
proof (intro conjI impI)
  assume "mset lookups' = mset lookups \<and>
    followersTimeline parse (Inr xs) lookups' since (timeline, rl, None)"
  then have perm: "mset lookups' = mset lookups"
    and call: "followersTimeline parse (Inr xs) lookups' since (timeline, rl, None)"
    by simp_all
  from perm have "mset (map snd lookups') = mset (map snd lookups)"
    by simp
  then have "mset (recent parse since (resolved (map snd lookups'))) =
      mset (recent parse since (resolved (map snd lookups)))"
    by (rule mset_recent_resolved_cong)
  with followersTimeline_success(3,4) [OF call]
  show exactly: "mset timeline = mset (recent parse since (resolved (map snd lookups)))"
    by simp
  then have "set timeline = set (recent parse since (resolved (map snd lookups)))"
    by (rule mset_eq_setD)
  then show "\<forall>t \<in> set timeline. fst (CreatedAtTime parse t) > since"
    by (simp add: recent_after)
  show "sorted_wrt (\<lambda>a b. fst (CreatedAtTime parse a) \<le> fst (CreatedAtTime parse b)) timeline"
    by (rule followersTimeline_success(5) [OF call])
next
  assume "mset (map fst lookups) = mset (producer 0 xs) \<and>
       (\<forall>r \<in> set lookups. failure parse (snd r) = None)"
  then show "\<exists>timeline rl. followersTimeline parse (Inr xs) lookups since (timeline, rl, None)"
    using followersTimeline_returns by blast
qed

lemma example_call:
  "followersTimeline exampleParse (Inr exampleIds) (rev exampleLookups) (- 6 * Minute)
     ([setUser foo (User 1 ''a'' (Some foo)), setUser baz (User 101 ''d'' (Some baz))],
      Some exampleRateLimit, None)"
  by (simp add: followersTimeline_def producer_exampleIds exampleLookups_def sort_Sort_def
      Less_def CreatedAtTime_def setUser_def exampleParse_def foo_def bar_def baz_def Minute_def
      mergeRateLimit_def zeroRateLimit_def exampleRateLimit_def)

theorem followersTimeline_recent_sorted_witness:
  "mset (rev exampleLookups) = mset exampleLookups
   \<and> followersTimeline exampleParse (Inr exampleIds) (rev exampleLookups) (- 6 * Minute)
       ([setUser foo (User 1 ''a'' (Some foo)), setUser baz (User 101 ''d'' (Some baz))],
        Some exampleRateLimit, None)
   \<and> mset [setUser foo (User 1 ''a'' (Some foo)), setUser baz (User 101 ''d'' (Some baz))] =
       mset (recent exampleParse (- 6 * Minute) (resolved (map snd exampleLookups)))
   \<and> fst (CreatedAtTime exampleParse (setUser foo (User 1 ''a'' (Some foo)))) > - 6 * Minute
   \<and> sorted_wrt (\<lambda>a b. fst (CreatedAtTime exampleParse a) \<le> fst (CreatedAtTime exampleParse b))
       [setUser foo (User 1 ''a'' (Some foo)), setUser baz (User 101 ''d'' (Some baz))]
   \<and> mset (map fst exampleLookups) = mset (producer 0 exampleIds)
   \<and> failure exampleParse (snd (exampleLookups ! 0)) = None
   \<and> failure exampleParse (snd (exampleLookups ! 1)) = None"
proof -
  have perm: "mset (rev exampleLookups) = mset exampleLookups"
    by simp
  have arrival: "mset (map fst exampleLookups) = mset (producer 0 exampleIds)"
    by (simp add: producer_exampleIds exampleLookups_def)
  have clean: "failure exampleParse (snd (exampleLookups ! 0)) = None"
    "failure exampleParse (snd (exampleLookups ! 1)) = None"
    by (simp_all add: exampleLookups_def failure_def CreatedAtTime_def exampleParse_def
        foo_def bar_def baz_def)
  note inst = followersTimeline_recent_sorted [of "rev exampleLookups" exampleLookups exampleParse
      exampleIds "- 6 * Minute"
      "[setUser foo (User 1 ''a'' (Some foo)), setUser baz (User 101 ''d'' (Some baz))]"
      "Some exampleRateLimit", THEN conjunct1, rule_format, OF conjI, OF perm example_call]
  show ?thesis
    using inst perm example_call arrival clean by simp
qed

section \<open>Properties of the deferred sort\<close>

text \<open>
  The insertion sort of the library, run with a comparison of keys, is the stable sort:
  the inner loop moves the new element to the left past the elements with a greater key
  and no further.
\<close>

lemma insertionSort_inner_append:
  "insertionSort_inner lt (xs @ x # ys) 0 (int (length xs)) =
     rev (dropWhile (lt x) (rev xs)) @ x # rev (takeWhile (lt x) (rev xs)) @ ys"
proof (induction xs arbitrary: ys rule: rev_induct)
  case Nil
  show ?case by (subst insertionSort_inner.simps) simp
next
  case (snoc y zs)
  let ?data = "(zs @ [y]) @ x # ys"
  let ?j = "int (length (zs @ [y]))"
  have j: "nat ?j = Suc (length zs)" and j1: "nat (?j - 1) = length zs"
    by simp_all
  have data: "?data = zs @ y # x # ys"
    by simp
  have nth_j1: "?data ! length zs = y"
    unfolding data by (rule nth_append_length)
  have nth_j: "?data ! Suc (length zs) = x"
    unfolding data by (simp add: nth_append)
  have less: "dataLess lt ?data ?j (?j - 1) = lt x y"
    unfolding dataLess_def j j1 nth_j nth_j1 ..
  have pos: "?j > 0" by simp
  show ?case
  proof (cases "lt x y")
    case True
    have swap: "dataSwap ?data ?j (?j - 1) = zs @ x # y # ys"
      unfolding dataSwap_def j j1 nth_j nth_j1 unfolding data
      by (simp add: list_update_append)
    have "insertionSort_inner lt ?data 0 ?j =
        insertionSort_inner lt (dataSwap ?data ?j (?j - 1)) 0 (?j - 1)"
      using True less pos by (subst insertionSort_inner.simps) (simp only: if_True simp_thms)
    also have "\<dots> = insertionSort_inner lt (zs @ x # y # ys) 0 (int (length zs))"
      unfolding swap by simp
    also have "\<dots> = rev (dropWhile (lt x) (rev zs)) @ x # rev (takeWhile (lt x) (rev zs)) @ y # ys"
      by (rule snoc)
    finally show ?thesis using True by simp
  next
    case False
    have "insertionSort_inner lt ?data 0 ?j = ?data"
      using False less by (subst insertionSort_inner.simps) (simp only: if_False simp_thms)
    then show ?thesis using False by simp
  qed
qed

lemma insert_last_sort_key:
  fixes key :: "'a \<Rightarrow> 'b::linorder"
  shows "rev (dropWhile (\<lambda>y. key x < key y) (rev (sort_key key p))) @ x #
         rev (takeWhile (\<lambda>y. key x < key y) (rev (sort_key key p))) =
     sort_key key (p @ [x])"
proof -
  let ?s = "sort_key key p"
  let ?Q = "\<lambda>y. key x < key y"
  let ?A = "rev (dropWhile ?Q (rev ?s))"
  let ?B = "rev (takeWhile ?Q (rev ?s))"
  have "rev (takeWhile ?Q (rev ?s) @ dropWhile ?Q (rev ?s)) = ?s"
    by (simp only: takeWhile_dropWhile_id rev_rev_ident)
  then have split: "?A @ ?B = ?s"
    by (simp only: rev_append)
  have sorted_s: "sorted (map key ?s)"
    by (rule sorted_sort_key)
  have B: "\<forall>y \<in> set ?B. key x < key y"
    by (auto dest: set_takeWhileD)
  have "sorted (map key (?A @ ?B))"
    using sorted_s by (simp only: split)
  then have sortedA: "sorted (map key ?A)" and sortedB: "sorted (map key ?B)"
    by (simp_all only: map_append sorted_append)
  have A: "\<forall>y \<in> set ?A. key y \<le> key x"
  proof (cases "dropWhile ?Q (rev ?s)")
    case Nil
    then have "?A = []" by (simp only: rev.simps)
    then show ?thesis by (simp only: list.set ball_empty)
  next
    case (Cons z zs)
    then have "\<not> key x < key z"
      using hd_dropWhile [of ?Q "rev ?s"] by auto
    then have z: "key z \<le> key x" by simp
    have A_eq: "?A = rev zs @ [z]" using Cons by simp
    with sortedA have "\<forall>y \<in> set (rev zs). key y \<le> key z"
      by (simp add: sorted_append)
    with z have "\<forall>y \<in> set (rev zs @ [z]). key y \<le> key x"
      by auto
    then show ?thesis by (simp only: A_eq)
  qed
  have srt: "sorted (map key (?A @ x # ?B))"
  proof -
    have "key a \<le> key b" if "a \<in> set ?A" and "b \<in> set (x # ?B)" for a b
    proof -
      from that(1) A have "key a \<le> key x" by blast
      moreover from that(2) B have "key x \<le> key b" by (auto simp add: less_imp_le)
      ultimately show ?thesis by (rule order_trans)
    qed
    then have "\<forall>a \<in> set ?A. \<forall>b \<in> set (x # ?B). key a \<le> key b"
      by blast
    moreover have "\<forall>b \<in> set ?B. key x \<le> key b"
      using B by (simp add: less_imp_le)
    then have "sorted (map key (x # ?B))"
      using sortedB by simp
    ultimately show ?thesis using sortedA by (simp only: map_append sorted_append set_map) blast
  qed
  have ms: "mset (?A @ x # ?B) = mset (p @ [x])"
    using arg_cong [OF split, of mset] by simp
  have flt: "filter (\<lambda>z. key k = key z) (?A @ x # ?B) = filter (\<lambda>z. key k = key z) (p @ [x])" for k
  proof -
    let ?P = "\<lambda>z. key k = key z"
    have "filter ?P ?s = filter ?P p"
      using sort_key_stable [of key "key k" p] by (simp add: eq_commute)
    then have parts: "filter ?P ?A @ filter ?P ?B = filter ?P p"
      using arg_cong [OF split, of "filter ?P"] by simp
    have one: "filter ?P ?B = [] \<or> filter ?P [x] = []"
    proof (cases "key k = key x")
      case True
      then have "filter ?P ?B = []"
        using B by (auto simp add: filter_empty_conv)
      then show ?thesis ..
    next
      case False
      then have "filter ?P [x] = []" by simp
      then show ?thesis ..
    qed
    have "filter ?P (?A @ x # ?B) = filter ?P ?A @ filter ?P [x] @ filter ?P ?B"
      by simp
    also have "\<dots> = filter ?P ?A @ filter ?P ?B @ filter ?P [x]"
      using one by (elim disjE) (simp_all only: append_Nil append_Nil2)
    also have "\<dots> = (filter ?P ?A @ filter ?P ?B) @ filter ?P [x]"
      by (simp only: append_assoc)
    also have "\<dots> = filter ?P p @ filter ?P [x]"
      by (simp only: parts)
    also have "\<dots> = filter ?P (p @ [x])"
      by simp
    finally show ?thesis .
  qed
  from properties_for_sort_key [OF ms flt srt] show ?thesis by simp
qed

lemma insertionSort_outer_sort_key:
  fixes key :: "'a \<Rightarrow> 'b::linorder"
  shows "insertionSort_outer (\<lambda>a b. key a < key b) (sort_key key p @ rest) 0
      (int (length p + length rest)) (int (length p)) = sort_key key (p @ rest)"
proof (induction rest arbitrary: p)
  case Nil
  show ?case by (subst insertionSort_outer.simps) simp
next
  case (Cons x rest)
  let ?lt = "\<lambda>a b. key a < key b"
  have "insertionSort_inner ?lt (sort_key key p @ x # rest) 0 (int (length (sort_key key p))) =
      rev (dropWhile (?lt x) (rev (sort_key key p))) @ x #
      rev (takeWhile (?lt x) (rev (sort_key key p))) @ rest"
    by (rule insertionSort_inner_append)
  also have "\<dots> = sort_key key (p @ [x]) @ rest"
    using arg_cong [OF insert_last_sort_key [of key x p], of "\<lambda>l. l @ rest"]
    by (simp only: append_assoc append_Cons)
  finally have inner: "insertionSort_inner ?lt (sort_key key p @ x # rest) 0 (int (length p)) =
      sort_key key (p @ [x]) @ rest"
    by (simp only: length_sort)
  have "insertionSort_outer ?lt (sort_key key p @ x # rest) 0
      (int (length p + length (x # rest))) (int (length p)) =
    insertionSort_outer ?lt (sort_key key (p @ [x]) @ rest) 0
      (int (length p + length (x # rest))) (int (length p) + 1)"
    by (subst insertionSort_outer.simps) (simp add: inner del: sort_key_simps)
  also have "\<dots> = insertionSort_outer ?lt (sort_key key (p @ [x]) @ rest) 0
      (int (length (p @ [x]) + length rest)) (int (length (p @ [x])))"
    by (simp only: length_append list.size add.commute add.left_commute of_nat_add of_nat_1 One_nat_def
        add_Suc_right add_Suc add_0_right add_0 of_nat_Suc)
  also have "\<dots> = sort_key key ((p @ [x]) @ rest)"
    by (rule Cons)
  finally show ?case by simp
qed

lemma insertionSort_sort_key:
  fixes key :: "'a \<Rightarrow> 'b::linorder"
  shows "insertionSort (\<lambda>a b. key a < key b) data 0 (int (length data)) = sort_key key data"
proof (cases data)
  case Nil
  show ?thesis unfolding Nil insertionSort_def
    by (subst insertionSort_outer.simps) simp
next
  case (Cons d rest)
  have "insertionSort_outer (\<lambda>a b. key a < key b) (sort_key key [d] @ rest) 0
      (int (length [d] + length rest)) (int (length [d])) = sort_key key ([d] @ rest)"
    by (rule insertionSort_outer_sort_key)
  then show ?thesis unfolding Cons insertionSort_def by simp
qed

lemma Sort_short_stable:
  fixes key :: "'a \<Rightarrow> 'b::linorder"
  assumes "length data \<le> 12"
  shows "Sort (Suc fuel) heapSort breakPatterns (\<lambda>a b. key a < key b) data = Some (sort_key key data)"
proof (cases "length data \<le> 1")
  case True
  then have "sort_key key data = data"
    by (cases data) (simp_all del: sort_key_simps, cases "tl data", simp_all)
  with True show ?thesis by (simp add: Sort_def)
next
  case False
  then show ?thesis using assms
    by (simp add: Sort_def Let_def insertionSort_sort_key del: sort_key_simps)
qed

lemma Less_tieTweet:
  "Less tieParse (tieTweet i s c) (tieTweet j s' c') = (fst (tieParse c) < fst (tieParse c'))"
  by (simp add: Less_def CreatedAtTime_def tieTweet_def setUser_def)

lemma tieParse_values:
  "fst (tieParse ''later'') = 1" "fst (tieParse ''earlier'') = 0"
  by (simp_all add: tieParse_def)

lemma Sort_tieTimeline:
  "Sort (Suc (Suc fuel)) heapSort breakPatterns (Less tieParse) tieTimeline = Some tieSorted"
  by (simp add: Sort_def tieTimeline_def tieSorted_def Let_def bits_Len.simps
      choosePivot_def median_def order2_def dataLess_def dataSwap_def Less_tieTweet tieParse_values
      partialInsertionSort_def partition_def scanLess.simps scanNotLess.simps partition_loop.simps
      insertionSort_def insertionSort_outer.simps insertionSort_inner.simps
      skipOrdered.simps numeral_eq_Suc)


lemma producer_tieIds: "producer 0 tieIds = [tieIds]"
proof -
  have len: "length tieIds = 13" by (simp add: tieIds_def)
  have "producer 0 tieIds = take 100 (drop 0 tieIds) # producer 100 tieIds"
    using producer_step [of 0 tieIds] len by simp
  moreover have "producer 100 tieIds = []"
    using producer_past_end [of tieIds 100] len by simp
  ultimately show ?thesis using len by simp
qed

lemma collect_tieLookups:
  "collect tieParse (- 1) (map snd tieLookups) zeroRateLimit [] =
     (tieTimeline, Some zeroRateLimit, None)"
  by (simp add: tieLookups_def tieTimeline_def tieUser_def tieTweet_def CreatedAtTime_def
      tieParse_def mergeRateLimit_def)

lemma sort_Sort_tie: "sort_Sort (Less tieParse) tieTimeline tieSorted"
  by (simp add: sort_Sort_def tieTimeline_def tieSorted_def Less_tieTweet tieParse_values)

text \<open>
  The deferred sort does not keep Statuses of equal creation time in their accumulation
  order: for the thirteen Statuses of \<open>tieTimeline\<close>, of which the first twelve have
  the same creation time, \<^verbatim>\<open>sort.Sort\<close> itself (for any \<^verbatim>\<open>heapSort\<close> and
  \<^verbatim>\<open>breakPatterns\<close>, which are not reached, and any fuel from 2 on) moves the pivot, the
  seventh Status, in front of the first one. This is the Timeline that the call
  returns; the seventh Status stands at index 1 and the first at index 6.
\<close>

theorem Sort_reorders_ties:
  "(\<forall>fuel heapSort breakPatterns.
      Sort (Suc (Suc fuel)) heapSort breakPatterns (Less tieParse) tieTimeline = Some tieSorted)
   \<and> fst (collect tieParse (- 1) (map snd tieLookups) zeroRateLimit []) = tieTimeline
   \<and> followersTimeline tieParse (Inr tieIds) tieLookups (- 1) (tieSorted, Some zeroRateLimit, None)
   \<and> tieTimeline ! 0 = tieTweet 1 ''1'' ''later''
   \<and> tieTimeline ! 6 = tieTweet 7 ''7'' ''later''
   \<and> tieSorted ! 1 = tieTweet 7 ''7'' ''later''
   \<and> tieSorted ! 6 = tieTweet 1 ''1'' ''later''
   \<and> fst (CreatedAtTime tieParse (tieTweet 1 ''1'' ''later'')) =
       fst (CreatedAtTime tieParse (tieTweet 7 ''7'' ''later''))
   \<and> tieTweet 1 ''1'' ''later'' \<noteq> tieTweet 7 ''7'' ''later''"
proof (intro conjI allI)
  show "Sort (Suc (Suc fuel)) heapSort breakPatterns (Less tieParse) tieTimeline = Some tieSorted"
    for fuel and heapSort breakPatterns :: "tweet list \<Rightarrow> int \<Rightarrow> int \<Rightarrow> tweet list"
    by (rule Sort_tieTimeline)
  show "fst (collect tieParse (- 1) (map snd tieLookups) zeroRateLimit []) = tieTimeline"
    by (simp add: collect_tieLookups)
  have "tieTimeline \<noteq> []" by (simp add: tieTimeline_def)
  then show "followersTimeline tieParse (Inr tieIds) tieLookups (- 1)
      (tieSorted, Some zeroRateLimit, None)"
    using sort_Sort_tie
    by (simp add: followersTimeline_def producer_tieIds collect_tieLookups) (simp add: tieLookups_def)
  show "tieTimeline ! 0 = tieTweet 1 ''1'' ''later''"
    and "tieTimeline ! 6 = tieTweet 7 ''7'' ''later''"
    by (simp_all add: tieTimeline_def)
  show "tieSorted ! 1 = tieTweet 7 ''7'' ''later''"
    and "tieSorted ! 6 = tieTweet 1 ''1'' ''later''"
    by (simp_all add: tieSorted_def)
  show "fst (CreatedAtTime tieParse (tieTweet 1 ''1'' ''later'')) =
       fst (CreatedAtTime tieParse (tieTweet 7 ''7'' ''later''))"
    by (simp add: CreatedAtTime_def tieTweet_def setUser_def)
  show "tieTweet 1 ''1'' ''later'' \<noteq> tieTweet 7 ''7'' ''later''"
    by (simp add: tieTweet_def setUser_def)
qed

lemma filter_same_key:
  "distinct (map f xs) \<Longrightarrow> k \<in> set xs \<Longrightarrow> filter (\<lambda>x. f k = f x) xs = [k]"
proof (induction xs)
  case Nil
  then show ?case by simp
next
  case (Cons x xs)
  show ?case
  proof (cases "k = x")
    case True
    have "filter (\<lambda>y. f x = f y) xs = []"
      using Cons.prems(1) by (auto simp add: filter_empty_conv)
    then show ?thesis using True by simp
  next
    case False
    with Cons.prems have k: "k \<in> set xs" by simp
    then have "f k \<in> f ` set xs" by (rule imageI)
    with Cons.prems(1) have "f k \<noteq> f x" by auto
    with k show ?thesis using Cons by simp
  qed
qed

lemma sorted_permutation_unique:
  assumes "mset ys = mset xs" and "distinct (map f xs)" and "sorted (map f ys)"
  shows "ys = sort_key f xs"
proof -
  have "mset (map f ys) = mset (map f xs)" using assms(1) by simp
  then have dys: "distinct (map f ys)" using assms(2) by (metis mset_eq_imp_distinct_iff)
  have sets: "set ys = set xs" using assms(1) by (rule mset_eq_setD)
  have "filter (\<lambda>x. f k = f x) ys = filter (\<lambda>x. f k = f x) xs" if "k \<in> set ys" for k
    using that sets by (simp add: filter_same_key [OF dys] filter_same_key [OF assms(2)])
  from properties_for_sort_key [OF assms(1) this assms(3)] show ?thesis by simp
qed

text \<open>
  C3 (amended): the Timeline that a successful call returns is a rearrangement of the
  accumulated Timeline, sorted ascending by parsed creation time; the relative order of
  Statuses with equal creation times is not guaranteed. When the creation times of the
  accumulated Statuses are all different, the returned Timeline is the one sorted order.
  With the implementation of \<^verbatim>\<open>sort.Sort\<close> above, a Timeline of at most 12 Statuses is
  returned in the stable order (Statuses of equal creation time keep their accumulation
  order); from 13 Statuses on this can fail.
\<close>

theorem followersTimeline_sorted_permutation:
  "(followersTimeline parse (Inr xs) lookups since (timeline, rl, None) \<longrightarrow>
      mset timeline = mset (fst (collect parse since (map snd lookups) zeroRateLimit []))
      \<and> sorted_wrt (\<lambda>a b. fst (CreatedAtTime parse a) \<le> fst (CreatedAtTime parse b)) timeline
      \<and> (distinct (map (\<lambda>t. fst (CreatedAtTime parse t))
             (fst (collect parse since (map snd lookups) zeroRateLimit []))) \<longrightarrow>
           timeline = sort_key (\<lambda>t. fst (CreatedAtTime parse t))
             (fst (collect parse since (map snd lookups) zeroRateLimit []))))
   \<and> (length data \<le> 12 \<longrightarrow>
        Sort (Suc fuel) heapSort breakPatterns (Less parse) data =
          Some (sort_key (\<lambda>t. fst (CreatedAtTime parse t)) data))"
proof (rule conjI)
  show "followersTimeline parse (Inr xs) lookups since (timeline, rl, None) \<longrightarrow>
      mset timeline = mset (fst (collect parse since (map snd lookups) zeroRateLimit []))
      \<and> sorted_wrt (\<lambda>a b. fst (CreatedAtTime parse a) \<le> fst (CreatedAtTime parse b)) timeline
      \<and> (distinct (map (\<lambda>t. fst (CreatedAtTime parse t))
             (fst (collect parse since (map snd lookups) zeroRateLimit []))) \<longrightarrow>
           timeline = sort_key (\<lambda>t. fst (CreatedAtTime parse t))
             (fst (collect parse since (map snd lookups) zeroRateLimit [])))"
  proof (intro impI conjI)
    assume call: "followersTimeline parse (Inr xs) lookups since (timeline, rl, None)"
    show perm: "mset timeline = mset (fst (collect parse since (map snd lookups) zeroRateLimit []))"
      by (rule followersTimeline_success(3) [OF call])
    show srt: "sorted_wrt (\<lambda>a b. fst (CreatedAtTime parse a) \<le> fst (CreatedAtTime parse b)) timeline"
      by (rule followersTimeline_success(5) [OF call])
    assume "distinct (map (\<lambda>t. fst (CreatedAtTime parse t))
        (fst (collect parse since (map snd lookups) zeroRateLimit [])))"
    moreover from srt have "sorted (map (\<lambda>t. fst (CreatedAtTime parse t)) timeline)"
      by (simp only: sorted_map)
    ultimately show "timeline = sort_key (\<lambda>t. fst (CreatedAtTime parse t))
        (fst (collect parse since (map snd lookups) zeroRateLimit []))"
      using perm by (intro sorted_permutation_unique)
  qed
  show "length data \<le> 12 \<longrightarrow>
        Sort (Suc fuel) heapSort breakPatterns (Less parse) data =
          Some (sort_key (\<lambda>t. fst (CreatedAtTime parse t)) data)"
  proof
    assume short: "length data \<le> 12"
    have "Less parse = (\<lambda>a b. fst (CreatedAtTime parse a) < fst (CreatedAtTime parse b))"
      by (intro ext) (simp add: Less_def)
    then show "Sort (Suc fuel) heapSort breakPatterns (Less parse) data =
          Some (sort_key (\<lambda>t. fst (CreatedAtTime parse t)) data)"
      using Sort_short_stable [OF short, of fuel heapSort breakPatterns
          "\<lambda>t. fst (CreatedAtTime parse t)"]
      by (simp only:)
  qed
qed

lemma example_collect:
  "fst (collect exampleParse (- 6 * Minute) (map snd (rev exampleLookups)) zeroRateLimit []) =
     [setUser baz (User 101 ''d'' (Some baz)), setUser foo (User 1 ''a'' (Some foo))]"
  by (simp add: exampleLookups_def CreatedAtTime_def setUser_def exampleParse_def
      foo_def bar_def baz_def Minute_def)

theorem followersTimeline_sorted_permutation_witness:
  "followersTimeline exampleParse (Inr exampleIds) (rev exampleLookups) (- 6 * Minute)
       ([setUser foo (User 1 ''a'' (Some foo)), setUser baz (User 101 ''d'' (Some baz))],
        Some exampleRateLimit, None)
   \<and> fst (collect exampleParse (- 6 * Minute) (map snd (rev exampleLookups)) zeroRateLimit []) =
       [setUser baz (User 101 ''d'' (Some baz)), setUser foo (User 1 ''a'' (Some foo))]
   \<and> distinct (map (\<lambda>t. fst (CreatedAtTime exampleParse t))
        [setUser baz (User 101 ''d'' (Some baz)), setUser foo (User 1 ''a'' (Some foo))])
   \<and> [setUser foo (User 1 ''a'' (Some foo)), setUser baz (User 101 ''d'' (Some baz))] =
       sort_key (\<lambda>t. fst (CreatedAtTime exampleParse t))
         [setUser baz (User 101 ''d'' (Some baz)), setUser foo (User 1 ''a'' (Some foo))]
   \<and> length [setUser baz (User 101 ''d'' (Some baz)), setUser foo (User 1 ''a'' (Some foo))] \<le> 12
   \<and> Sort (Suc 0) (\<lambda>d a b. d) (\<lambda>d a b. d) (Less exampleParse)
        [setUser baz (User 101 ''d'' (Some baz)), setUser foo (User 1 ''a'' (Some foo))] =
       Some [setUser foo (User 1 ''a'' (Some foo)), setUser baz (User 101 ''d'' (Some baz))]"
proof -
  let ?acc = "[setUser baz (User 101 ''d'' (Some baz)), setUser foo (User 1 ''a'' (Some foo))]"
  let ?ret = "[setUser foo (User 1 ''a'' (Some foo)), setUser baz (User 101 ''d'' (Some baz))]"
  note inst = followersTimeline_sorted_permutation [where parse = exampleParse
      and xs = exampleIds and lookups = "rev exampleLookups" and since = "- 6 * Minute"
      and timeline = ?ret and rl = "Some exampleRateLimit" and data = ?acc and fuel = 0
      and heapSort = "\<lambda>d a b. d" and breakPatterns = "\<lambda>d a b. d"]
  have d: "distinct (map (\<lambda>t. fst (CreatedAtTime exampleParse t)) ?acc)"
    by (simp add: CreatedAtTime_def setUser_def exampleParse_def foo_def baz_def Minute_def)
  have short: "length ?acc \<le> 12"
    by simp
  from inst [THEN conjunct1, rule_format, OF example_call]
  have "distinct (map (\<lambda>t. fst (CreatedAtTime exampleParse t))
          (fst (collect exampleParse (- 6 * Minute) (map snd (rev exampleLookups)) zeroRateLimit []))) \<longrightarrow>
        ?ret = sort_key (\<lambda>t. fst (CreatedAtTime exampleParse t))
            (fst (collect exampleParse (- 6 * Minute) (map snd (rev exampleLookups)) zeroRateLimit []))"
    by blast
  then have sorted_acc: "?ret = sort_key (\<lambda>t. fst (CreatedAtTime exampleParse t)) ?acc"
    using d by (simp only: example_collect)
  from inst [THEN conjunct2, rule_format, OF short]
  have "Sort (Suc 0) (\<lambda>d a b. d) (\<lambda>d a b. d) (Less exampleParse) ?acc =
      Some (sort_key (\<lambda>t. fst (CreatedAtTime exampleParse t)) ?acc)" .
  then have run: "Sort (Suc 0) (\<lambda>d a b. d) (\<lambda>d a b. d) (Less exampleParse) ?acc = Some ?ret"
    by (simp only: sorted_acc [symmetric])
  show ?thesis
    by (intro conjI example_call example_collect d sorted_acc short run)
qed

section \<open>The first error\<close>

text \<open>
  C6: when \<^verbatim>\<open>followersIDs\<close> fails, or when the results \<open>pre\<close> received so far brought no
  error and the next result \<open>x\<close> brings the error \<open>e\<close> (the error of its worker, or the
  parse error of one of its Statuses), the call returns exactly the nil Timeline, the
  nil rate-limit observation and that error, whatever results \<open>post\<close> are still to
  come; the Statuses accumulated from \<open>pre\<close> are not returned.
\<close>

theorem followersTimeline_first_error:
  "(followersTimeline parse (Inl e) lookups since ret \<longrightarrow> ret = ([], None, Some e))
   \<and> ((\<forall>r \<in> set pre. failure parse (snd r) = None) \<and> failure parse (snd x) = Some e \<and>
       mset (map fst (pre @ x # post)) = mset (producer 0 xs) \<longrightarrow>
        (followersTimeline parse (Inr xs) (pre @ x # post) since ret \<longleftrightarrow> ret = ([], None, Some e))
        \<and> fst (collect parse since (map snd pre) zeroRateLimit []) =
            recent parse since (resolved (map snd pre)))"
proof (intro conjI impI)
  assume "followersTimeline parse (Inl e) lookups since ret"
  then show "ret = ([], None, Some e)"
    by (simp add: followersTimeline_def)
next
  assume "(\<forall>r \<in> set pre. failure parse (snd r) = None) \<and> failure parse (snd x) = Some e \<and>
       mset (map fst (pre @ x # post)) = mset (producer 0 xs)"
  then have pre: "\<forall>r \<in> set (map snd pre). failure parse r = None"
    and x: "failure parse (snd x) = Some e"
    and arrival: "mset (map fst (pre @ x # post)) = mset (producer 0 xs)"
    by simp_all
  have "collect parse since (map snd pre @ snd x # map snd post) zeroRateLimit [] = ([], None, Some e)"
    using pre x by (rule collect_failure)
  then have c: "collect parse since (map snd (pre @ x # post)) zeroRateLimit [] = ([], None, Some e)"
    by simp
  show "followersTimeline parse (Inr xs) (pre @ x # post) since ret \<longleftrightarrow> ret = ([], None, Some e)"
    using arrival by (cases ret) (auto simp add: followersTimeline_def c simp del: map_append)
  show "fst (collect parse since (map snd pre) zeroRateLimit []) =
      recent parse since (resolved (map snd pre))"
    using collect_clean [OF pre, of since zeroRateLimit "[]"] by auto
qed


theorem followersTimeline_first_error_witness:
  "failure failingParse (snd (exampleLookups ! 1)) = None
   \<and> failure failingParse (snd (exampleLookups ! 0)) = Some (Error ''cannot parse'')
   \<and> mset (map fst ([exampleLookups ! 1] @ exampleLookups ! 0 # [])) = mset (producer 0 exampleIds)
   \<and> followersTimeline failingParse (Inr exampleIds) ([exampleLookups ! 1] @ exampleLookups ! 0 # [])
       (- 6 * Minute) ([], None, Some (Error ''cannot parse''))
   \<and> fst (collect failingParse (- 6 * Minute) (map snd [exampleLookups ! 1]) zeroRateLimit []) =
       [setUser baz (User 101 ''d'' (Some baz))]
   \<and> followersTimeline failingParse (Inl (Error ''no followers'')) [] (- 6 * Minute)
       ([], None, Some (Error ''no followers''))"
proof -
  have clean: "\<forall>r \<in> set [exampleLookups ! 1]. failure failingParse (snd r) = None"
    by (simp add: exampleLookups_def failure_def CreatedAtTime_def failingParse_def exampleParse_def
        baz_def)
  have fails: "failure failingParse (snd (exampleLookups ! 0)) = Some (Error ''cannot parse'')"
    by (simp add: exampleLookups_def failure_def CreatedAtTime_def failingParse_def exampleParse_def
        foo_def bar_def)
  have arrival: "mset (map fst ([exampleLookups ! 1] @ exampleLookups ! 0 # [])) =
      mset (producer 0 exampleIds)"
    by (simp add: producer_exampleIds exampleLookups_def)
  have partial: "recent failingParse (- 6 * Minute) (resolved (map snd [exampleLookups ! 1])) =
      [setUser baz (User 101 ''d'' (Some baz))]"
    by (simp add: exampleLookups_def recent_def resolved_def CreatedAtTime_def failingParse_def
        exampleParse_def baz_def Minute_def)
  have ids: "followersTimeline failingParse (Inl (Error ''no followers'')) [] (- 6 * Minute)
       ([], None, Some (Error ''no followers''))"
    by (simp add: followersTimeline_def)
  from followersTimeline_first_error [where parse = failingParse and pre = "[exampleLookups ! 1]"
      and x = "exampleLookups ! 0" and post = "[]" and e = "Error ''cannot parse''"
      and xs = exampleIds and since = "- 6 * Minute"
      and ret = "([], None, Some (Error ''cannot parse''))", THEN conjunct2, rule_format,
      OF conjI [OF clean conjI [OF fails arrival]]]
  show ?thesis
    using clean fails arrival partial ids by simp
qed

section \<open>The returned rate-limit observation\<close>

lemma collect_rateLimit:
  "\<forall>r \<in> set rs. failure parse r = None \<Longrightarrow>
   fst (snd (collect parse since rs rl timeline)) =
     Some (foldl mergeRateLimit rl (map observation rs))"
proof (induction rs arbitrary: rl timeline)
  case Nil
  then show ?case by simp
next
  case (Cons r rs)
  from Cons.prems obtain a where r: "r = Inr a" and a: "parseFailure parse (results a) = None"
    by (cases r) (simp_all add: failure_def)
  from Cons.prems have "\<forall>r \<in> set rs. failure parse r = None" by simp
  from Cons.IH [OF this, of "mergeRateLimit rl (rateLimit a)"
      "timeline @ recent parse since (results a)"]
  show ?case
    using r by (simp add: appendStatuses_clean [OF a] observation_def)
qed

text \<open>
  C10: a call that returns no error returns a rate-limit observation that is not nil:
  the value reached from the zero-valued observation by merging, one after the other in
  the order of arrival, the observations of the results, where an incoming observation
  replaces the accumulator only if its reset is strictly later or its remaining count
  strictly smaller, and a result without an observation leaves it. When no result carries
  an observation the zero-valued one is returned. For an account with no follower
  identifiers no lookup is made and the call returns the nil Timeline, the zero-valued
  observation and no error.
\<close>

theorem followersTimeline_rateLimit_not_nil:
  "(followersTimeline parse (Inr xs) lookups since (timeline, rl, None) \<longrightarrow>
      rl \<noteq> None
      \<and> rl = Some (foldl mergeRateLimit zeroRateLimit (map (\<lambda>r. observation (snd r)) lookups)))
   \<and> \<not> followersTimeline parse (Inl e) lookups since (timeline, rl, None)
   \<and> (followersTimeline parse (Inr xs) lookups since (timeline, rl, None) \<and>
       (\<forall>r \<in> set lookups. \<forall>a. snd r = Inr a \<longrightarrow> rateLimit a = None) \<longrightarrow>
        rl = Some zeroRateLimit)
   \<and> zeroRateLimit = \<lparr>Limit = 0, Remaining = 0, Reset = 0\<rparr>
   \<and> mergeRateLimit acc None = acc
   \<and> mergeRateLimit acc (Some b) =
       (if sint (Reset b) > sint (Reset acc) \<or> Remaining b < Remaining acc then b else acc)
   \<and> (followersTimeline parse (Inr []) lookups since ret \<longleftrightarrow>
        lookups = [] \<and> ret = ([], Some zeroRateLimit, None))"
proof (intro conjI impI)
  assume call: "followersTimeline parse (Inr xs) lookups since (timeline, rl, None)"
  from followersTimeline_success(6) [OF call] show "rl \<noteq> None" by auto
  from followersTimeline_success(2) [OF call]
  have clean: "\<forall>r \<in> set (map snd lookups). failure parse r = None" by simp
  from collect_rateLimit [OF clean, of since zeroRateLimit "[]"] call
  show "rl = Some (foldl mergeRateLimit zeroRateLimit (map (\<lambda>r. observation (snd r)) lookups))"
    by (auto simp add: followersTimeline_def comp_def split: prod.splits)
next
  show "\<not> followersTimeline parse (Inl e) lookups since (timeline, rl, None)"
    by (simp add: followersTimeline_def)
next
  assume "followersTimeline parse (Inr xs) lookups since (timeline, rl, None) \<and>
       (\<forall>r \<in> set lookups. \<forall>a. snd r = Inr a \<longrightarrow> rateLimit a = None)"
  then have call: "followersTimeline parse (Inr xs) lookups since (timeline, rl, None)"
    and none: "\<forall>r \<in> set (map snd lookups). \<forall>a. r = Inr a \<longrightarrow> rateLimit a = None"
    by simp_all
  from followersTimeline_success(2) [OF call]
  have clean: "\<forall>r \<in> set (map snd lookups). failure parse r = None" by simp
  from collect_no_observation [OF clean none, of since zeroRateLimit "[]"] call
  show "rl = Some zeroRateLimit"
    by (simp add: followersTimeline_def)
next
  show "zeroRateLimit = \<lparr>Limit = 0, Remaining = 0, Reset = 0\<rparr>"
    by (simp add: zeroRateLimit_def)
  show "mergeRateLimit acc None = acc"
    by (simp add: mergeRateLimit_def)
  show "mergeRateLimit acc (Some b) =
       (if sint (Reset b) > sint (Reset acc) \<or> Remaining b < Remaining acc then b else acc)"
    by (simp add: mergeRateLimit_def)
  show "followersTimeline parse (Inr []) lookups since ret \<longleftrightarrow>
        lookups = [] \<and> ret = ([], Some zeroRateLimit, None)"
    by (cases ret) (auto simp add: followersTimeline_def producer_past_end)
qed

lemma twoObservations_call:
  "followersTimeline exampleParse (Inr exampleIds) twoObservations 0
     ([], Some \<lparr>Limit = 15, Remaining = 3, Reset = 10\<rparr>, None)"
  by (simp add: followersTimeline_def producer_exampleIds twoObservations_def
      mergeRateLimit_def zeroRateLimit_def)

theorem followersTimeline_rateLimit_not_nil_witness:
  "followersTimeline exampleParse (Inr []) [] 0 ([], Some zeroRateLimit, None)
   \<and> Some zeroRateLimit \<noteq> None
   \<and> followersTimeline exampleParse (Inr exampleIds) (rev exampleLookups) (- 6 * Minute)
       ([setUser foo (User 1 ''a'' (Some foo)), setUser baz (User 101 ''d'' (Some baz))],
        Some exampleRateLimit, None)
   \<and> Some exampleRateLimit \<noteq> None
   \<and> followersTimeline exampleParse (Inr exampleIds) twoObservations 0
       ([], Some \<lparr>Limit = 15, Remaining = 3, Reset = 10\<rparr>, None)
   \<and> Some \<lparr>Limit = 15, Remaining = 3, Reset = 10\<rparr> =
       Some (foldl mergeRateLimit zeroRateLimit (map (\<lambda>r. observation (snd r)) twoObservations))"
  using followersTimeline_rateLimit_not_nil [where xs = "[]" and lookups = "[]" and since = 0
      and parse = exampleParse and ret = "([], Some zeroRateLimit, None)" and timeline = "[]"
      and rl = "Some zeroRateLimit"]
    followersTimeline_rateLimit_not_nil [where xs = exampleIds and lookups = "rev exampleLookups"
      and since = "- 6 * Minute" and parse = exampleParse
      and timeline = "[setUser foo (User 1 ''a'' (Some foo)), setUser baz (User 101 ''d'' (Some baz))]"
      and rl = "Some exampleRateLimit"]
    followersTimeline_rateLimit_not_nil [where xs = exampleIds and lookups = twoObservations
      and since = 0 and parse = exampleParse and timeline = "[]"
      and rl = "Some \<lparr>Limit = 15, Remaining = 3, Reset = 10\<rparr>"]
    example_call twoObservations_call
  by simp

section \<open>The watermark of the scheduler\<close>

lemma Run_iteration_next:
  assumes "snd (Run_iteration parse mentioner st (timeline, rl, err) nowUnix) = Inr (st', wait)"
  shows "err = None"
    and "latestCreatedAt st' =
      (if timeline \<noteq> [] then fst (CreatedAtTime parse (last timeline)) else latestCreatedAt st)"
    and "rl = Some (latestRateLimit st')"
    and "wait = waitSeconds (latestRateLimit st) (latestRateLimit st') nowUnix"
  using assms
  by (auto simp add: Run_iteration_def split: option.splits prod.splits if_splits)

lemma sorted_wrt_le_last:
  assumes "sorted_wrt (\<lambda>a b. f a \<le> (f b :: int)) ys" and "y \<in> set ys"
  shows "f y \<le> f (last ys)"
proof -
  from assms(2) have ne: "ys \<noteq> []" by auto
  then have "ys = butlast ys @ [last ys]" by simp
  with assms(1) have "sorted_wrt (\<lambda>a b. f a \<le> f b) (butlast ys @ [last ys])" by simp
  then have "\<forall>x \<in> set (butlast ys). f x \<le> f (last ys)"
    by (simp only: sorted_wrt_append) simp
  moreover from assms(2) ne have "y \<in> set (butlast ys) \<or> y = last ys"
    by (metis Un_iff append_butlast_last_id empty_iff empty_set insert_iff list.simps(15) set_append)
  ultimately show ?thesis by auto
qed

lemma Run_iteration_watermark:
  assumes call: "followersTimeline parse idsResults lookups (latestCreatedAt st) ret"
    and body: "snd (Run_iteration parse mentioner st ret nowUnix) = Inr (st', wait)"
  shows "latestCreatedAt st \<le> latestCreatedAt st'"
    and "fst ret \<noteq> [] \<Longrightarrow> latestCreatedAt st' = fst (CreatedAtTime parse (last (fst ret)))"
    and "fst ret \<noteq> [] \<Longrightarrow> latestCreatedAt st < latestCreatedAt st'"
    and "fst ret \<noteq> [] \<Longrightarrow> \<forall>t \<in> set (fst ret). fst (CreatedAtTime parse t) \<le> latestCreatedAt st'"
    and "fst ret = [] \<Longrightarrow> latestCreatedAt st' = latestCreatedAt st"
proof -
  obtain timeline rl err where ret: "ret = (timeline, rl, err)" by (cases ret)
  from Run_iteration_next [OF body [unfolded ret]]
  have err: "err = None"
    and next_mark: "latestCreatedAt st' =
      (if timeline \<noteq> [] then fst (CreatedAtTime parse (last timeline)) else latestCreatedAt st)"
    by simp_all
  from call ret err obtain xs where ids: "idsResults = Inr xs"
    by (cases idsResults) (simp_all add: followersTimeline_def)
  from call have success: "followersTimeline parse (Inr xs) lookups (latestCreatedAt st) (timeline, rl, None)"
    by (simp add: ret err ids)
  have "mset timeline = mset (recent parse (latestCreatedAt st) (resolved (map snd lookups)))"
    using followersTimeline_success(3,4) [OF success] by simp
  then have "set timeline = set (recent parse (latestCreatedAt st) (resolved (map snd lookups)))"
    by (rule mset_eq_setD)
  then have after: "\<forall>t \<in> set timeline. fst (CreatedAtTime parse t) > latestCreatedAt st"
    by (simp add: recent_after)
  have srt: "sorted_wrt (\<lambda>a b. fst (CreatedAtTime parse a) \<le> fst (CreatedAtTime parse b)) timeline"
    by (rule followersTimeline_success(5) [OF success])
  show "fst ret \<noteq> [] \<Longrightarrow> latestCreatedAt st' = fst (CreatedAtTime parse (last (fst ret)))"
    using next_mark by (simp add: ret)
  show strict: "fst ret \<noteq> [] \<Longrightarrow> latestCreatedAt st < latestCreatedAt st'"
    using next_mark after by (simp add: ret)
  show "fst ret = [] \<Longrightarrow> latestCreatedAt st' = latestCreatedAt st"
    using next_mark by (simp add: ret)
  show "fst ret \<noteq> [] \<Longrightarrow> \<forall>t \<in> set (fst ret). fst (CreatedAtTime parse t) \<le> latestCreatedAt st'"
    using next_mark sorted_wrt_le_last [OF srt] by (simp add: ret)
  show "latestCreatedAt st \<le> latestCreatedAt st'"
    using next_mark strict by (cases "timeline = []") (simp_all add: ret)
qed

lemma Run_loop_watermark:
  "Run_loop parse mentioner st st' \<Longrightarrow> latestCreatedAt st \<le> latestCreatedAt st'"
proof (induction rule: Run_loop.induct)
  case start
  show ?case by simp
next
  case (iteration st1 idsResults lookups ret nowUnix st2 wait)
  from Run_iteration_watermark(1) [OF iteration.hyps(2,3)] iteration.IH
  show ?case by simp
qed

text \<open>
  C7: in an iteration of the loop of \<^verbatim>\<open>Run\<close> that goes on to the next one, the
  watermark does not decrease. When the fetched Timeline is not empty, the new watermark
  is the parsed creation time of its last element, which is strictly after the old
  watermark and not before the creation time of any other element; when the Timeline is
  empty, the watermark is unchanged. Hence the watermark of every state that the loop
  reaches is at least the watermark it started from.
\<close>

theorem watermark_monotone:
  "(followersTimeline parse idsResults lookups (latestCreatedAt st) ret \<and>
    snd (Run_iteration parse mentioner st ret nowUnix) = Inr (st', wait) \<longrightarrow>
      latestCreatedAt st \<le> latestCreatedAt st'
      \<and> (fst ret \<noteq> [] \<longrightarrow>
           latestCreatedAt st' = fst (CreatedAtTime parse (last (fst ret)))
           \<and> latestCreatedAt st < latestCreatedAt st'
           \<and> (\<forall>t \<in> set (fst ret). fst (CreatedAtTime parse t) \<le> latestCreatedAt st'))
      \<and> (fst ret = [] \<longrightarrow> latestCreatedAt st' = latestCreatedAt st))
   \<and> (Run_loop parse mentioner st0 st1 \<longrightarrow> latestCreatedAt st0 \<le> latestCreatedAt st1)"
proof (intro conjI impI)
  assume "followersTimeline parse idsResults lookups (latestCreatedAt st) ret \<and>
    snd (Run_iteration parse mentioner st ret nowUnix) = Inr (st', wait)"
  then have call: "followersTimeline parse idsResults lookups (latestCreatedAt st) ret"
    and body: "snd (Run_iteration parse mentioner st ret nowUnix) = Inr (st', wait)"
    by simp_all
  show "latestCreatedAt st \<le> latestCreatedAt st'"
    by (rule Run_iteration_watermark(1) [OF call body])
  show "latestCreatedAt st' = fst (CreatedAtTime parse (last (fst ret)))" if "fst ret \<noteq> []"
    by (rule Run_iteration_watermark(2) [OF call body that])
  show "latestCreatedAt st < latestCreatedAt st'" if "fst ret \<noteq> []"
    by (rule Run_iteration_watermark(3) [OF call body that])
  show "\<forall>t \<in> set (fst ret). fst (CreatedAtTime parse t) \<le> latestCreatedAt st'" if "fst ret \<noteq> []"
    by (rule Run_iteration_watermark(4) [OF call body that])
  show "latestCreatedAt st' = latestCreatedAt st" if "fst ret = []"
    by (rule Run_iteration_watermark(5) [OF call body that])
next
  assume "Run_loop parse mentioner st0 st1"
  then show "latestCreatedAt st0 \<le> latestCreatedAt st1"
    by (rule Run_loop_watermark)
qed


lemma example_iteration:
  "snd (Run_iteration exampleParse None
          \<lparr>latestRateLimit = \<lparr>Limit = 180, Remaining = 180, Reset = 900\<rparr>,
           latestCreatedAt = - 6 * Minute\<rparr>
          ([setUser foo (User 1 ''a'' (Some foo)), setUser baz (User 101 ''d'' (Some baz))],
           Some exampleRateLimit, None) 0) =
     Inr (\<lparr>latestRateLimit = exampleRateLimit, latestCreatedAt = - 2 * Minute\<rparr>,
          waitSeconds \<lparr>Limit = 180, Remaining = 180, Reset = 900\<rparr> exampleRateLimit 0)"
  by (simp add: Run_iteration_def CreatedAtTime_def setUser_def exampleParse_def foo_def baz_def)

theorem watermark_monotone_witness:
  "followersTimeline exampleParse (Inr exampleIds) (rev exampleLookups)
     (latestCreatedAt \<lparr>latestRateLimit = \<lparr>Limit = 180, Remaining = 180, Reset = 900\<rparr>,
                       latestCreatedAt = - 6 * Minute\<rparr>)
     ([setUser foo (User 1 ''a'' (Some foo)), setUser baz (User 101 ''d'' (Some baz))],
      Some exampleRateLimit, None)
   \<and> snd (Run_iteration exampleParse None
          \<lparr>latestRateLimit = \<lparr>Limit = 180, Remaining = 180, Reset = 900\<rparr>,
           latestCreatedAt = - 6 * Minute\<rparr>
          ([setUser foo (User 1 ''a'' (Some foo)), setUser baz (User 101 ''d'' (Some baz))],
           Some exampleRateLimit, None) 0) =
       Inr (\<lparr>latestRateLimit = exampleRateLimit, latestCreatedAt = - 2 * Minute\<rparr>,
            waitSeconds \<lparr>Limit = 180, Remaining = 180, Reset = 900\<rparr> exampleRateLimit 0)
   \<and> - 6 * Minute < - 2 * Minute
   \<and> fst (CreatedAtTime exampleParse (setUser baz (User 101 ''d'' (Some baz)))) = - 2 * Minute
   \<and> Run_loop exampleParse None
        \<lparr>latestRateLimit = \<lparr>Limit = 180, Remaining = 180, Reset = 900\<rparr>,
         latestCreatedAt = - 6 * Minute\<rparr>
        \<lparr>latestRateLimit = exampleRateLimit, latestCreatedAt = - 2 * Minute\<rparr>"
proof -
  let ?st = "\<lparr>latestRateLimit = \<lparr>Limit = 180, Remaining = 180, Reset = 900\<rparr>,
             latestCreatedAt = - 6 * Minute\<rparr>"
  let ?ret = "([setUser foo (User 1 ''a'' (Some foo)), setUser baz (User 101 ''d'' (Some baz))],
      Some exampleRateLimit, None)"
  let ?next = "\<lparr>latestRateLimit = exampleRateLimit, latestCreatedAt = - 2 * Minute\<rparr>"
  have call: "followersTimeline exampleParse (Inr exampleIds) (rev exampleLookups)
      (latestCreatedAt ?st) ?ret"
    using example_call by simp
  have loop: "Run_loop exampleParse None ?st ?next"
    using Run_loop.iteration [OF Run_loop.start call example_iteration] .
  from watermark_monotone [where parse = exampleParse and idsResults = "Inr exampleIds"
      and lookups = "rev exampleLookups" and st = ?st and ret = ?ret and mentioner = None
      and nowUnix = 0 and st' = ?next
      and wait = "waitSeconds \<lparr>Limit = 180, Remaining = 180, Reset = 900\<rparr> exampleRateLimit 0"
      and ?st0.0 = ?st and ?st1.0 = ?next]
    call example_iteration loop
  have "- 6 * Minute < - 2 * Minute"
    and "fst (CreatedAtTime exampleParse (setUser baz (User 101 ''d'' (Some baz)))) = - 2 * Minute"
    by simp_all
  with call example_iteration loop show ?thesis
    by (intro conjI)
qed

end
